theory Spec2Isabelle
  imports Main
begin

section \<open>Machine integers and errors\<close>

text \<open>
  \<^verbatim>\<open>size_t\<close> is a 64-bit unsigned integer and the hash slots are \<^verbatim>\<open>uint32_t\<close>.
  Both are modelled as \<open>nat\<close> with the wrap-around written out at every arithmetic
  operation of the source that can overflow.
\<close>

definition SIZE_MAX :: nat where
  "SIZE_MAX = 2 ^ 64 - 1"

definition UINT_MAX :: nat where
  "UINT_MAX = 2 ^ 32 - 1"

definition wrap64 :: "nat \<Rightarrow> nat" where
  "wrap64 x = x mod 2 ^ 64"

definition dec64 :: "nat \<Rightarrow> nat" where
  "dec64 x = (x + (2 ^ 64 - 1)) mod 2 ^ 64"

definition u32 :: "nat \<Rightarrow> nat" where
  "u32 x = x mod 2 ^ 32"

text \<open>
  Undefined behaviour of the source is an error value: an access outside an allocated
  array, a remainder by zero, or the use of an object of class type after its destructor
  has run. A loop that never exits is the value \<open>None\<close> of the enclosing \<open>option\<close>.
\<close>

datatype error = OutOfBounds | DivByZero | Destroyed

section \<open>The environment of a container\<close>

text \<open>
  What the templates take from their instantiation and from the C library:
  \<^verbatim>\<open>std::hash<KeyT>\<close>, \<^verbatim>\<open>sizeof\<close> of every column type, the outcome of
  \<^verbatim>\<open>aligned_alloc\<close> for a request of a given number of bytes, the content of a cell
  of a freshly allocated block, the value of \<^verbatim>\<open>FT()\<close> for every column, and whether
  \<^verbatim>\<open>KeyT\<close> is trivially destructible (as \<^verbatim>\<open>int\<close> is and \<^verbatim>\<open>std::string\<close> is not).
  All column types are embedded in one type \<open>'v\<close> of cell values.
\<close>

record 'v env =
  std_hash :: "'v \<Rightarrow> nat"
  sizeofs :: "nat list"
  malloc_ok :: "nat \<Rightarrow> bool"
  junk :: 'v
  defaults :: "'v list"
  trivial_key :: bool

section \<open>The column store (soa.hpp)\<close>

text \<open>
  A column is the list of the cells of its sub-array, one per allocated row slot, so its
  length is the allocated capacity and \<open>[]\<close> is \<^verbatim>\<open>nullptr\<close>. Cells at and beyond
  \<open>mysize\<close> keep whatever value the memory holds: a destructor call does not change
  the cell, and the lifetime of the objects is not tracked.
\<close>

record 'v soa =
  mysize :: nat
  mycapacity :: nat
  mydata :: "'v list list"

definition soa_empty :: "nat \<Rightarrow> 'v soa" where
  "soa_empty ncols = \<lparr> mysize = 0, mycapacity = 0, mydata = replicate ncols [] \<rparr>"

fun size_per_entry :: "nat list \<Rightarrow> nat" where
  "size_per_entry [] = 0"
| "size_per_entry (sz # rest) = sz + size_per_entry rest"

subsection \<open>One column\<close>

text \<open>\<^verbatim>\<open>new (&mydata[i]) FT(v)\<close>\<close>

definition col_construct :: "nat \<Rightarrow> 'v \<Rightarrow> 'v list \<Rightarrow> error + 'v list" where
  "col_construct i v col = (if i < length col then Inr (col[i := v]) else Inl OutOfBounds)"

text \<open>
  \<^verbatim>\<open>mydata[i].~FT()\<close>: the bytes of the cell stay as they are. Which rows hold an
  object is what \<open>mysize\<close> says: the rows below it do, the rows from it on have been
  destructed or never constructed (see \<open>at_key\<close> for the one place where the source reads
  such a row).
\<close>

definition col_destruct :: "nat \<Rightarrow> 'v list \<Rightarrow> error + 'v list" where
  "col_destruct i col = (if i < length col then Inr col else Inl OutOfBounds)"

text \<open>\<^verbatim>\<open>for (size_t i = begin; i < end; ++i) new (&mydata[i]) FT(initval);\<close>\<close>

function col_construct_range :: "nat \<Rightarrow> nat \<Rightarrow> 'v \<Rightarrow> 'v list \<Rightarrow> error + 'v list" where
  "col_construct_range i fin v col =
     (if i < fin
      then (case col_construct i v col of
              Inl x \<Rightarrow> Inl x
            | Inr col' \<Rightarrow> col_construct_range (Suc i) fin v col')
      else Inr col)"
  by pat_completeness auto
termination
  by (relation "measure (\<lambda>(i, fin, v, col). fin - i)") auto

declare col_construct_range.simps [simp del]

text \<open>\<^verbatim>\<open>for (size_t i = begin; i < end; ++i) mydata[i].~FT();\<close>\<close>

function col_destruct_range :: "nat \<Rightarrow> nat \<Rightarrow> 'v list \<Rightarrow> error + 'v list" where
  "col_destruct_range i fin col =
     (if i < fin
      then (case col_destruct i col of
              Inl x \<Rightarrow> Inl x
            | Inr col' \<Rightarrow> col_destruct_range (Suc i) fin col')
      else Inr col)"
  by pat_completeness auto
termination
  by (relation "measure (\<lambda>(i, fin, col). fin - i)") auto

declare col_destruct_range.simps [simp del]

text \<open>
  \<^verbatim>\<open>memmove(mydata + dst, mydata + src, sizeof(FT) * cnt)\<close>: \<open>cnt\<close> cells are read from
  \<open>src\<close> on and written from \<open>dst\<close> on; both ranges must lie inside the sub-array.
\<close>

definition col_memmove :: "nat \<Rightarrow> nat \<Rightarrow> nat \<Rightarrow> 'v list \<Rightarrow> error + 'v list" where
  "col_memmove dst src cnt col =
     (if cnt = 0 then Inr col
      else if length col < src + cnt \<or> length col < dst + cnt then Inl OutOfBounds
      else Inr (take dst col @ take cnt (drop src col) @ drop (dst + cnt) col))"

text \<open>\<^verbatim>\<open>swap(mydata[i], mydata[j])\<close>\<close>

definition col_swap :: "nat \<Rightarrow> nat \<Rightarrow> 'v list \<Rightarrow> error + 'v list" where
  "col_swap i j col =
     (if i < length col \<and> j < length col then Inr (col[i := col ! j, j := col ! i])
      else Inl OutOfBounds)"

text \<open>
  One column of \<^verbatim>\<open>divy_buffer\<close>: the first \<open>min mysize mycapacity\<close> cells of the old
  sub-array are copied to the start of the new one (when the old pointer is not null);
  the other cells of the new sub-array are fresh memory.
\<close>

definition col_divy :: "'v \<Rightarrow> nat \<Rightarrow> nat \<Rightarrow> 'v list \<Rightarrow> error + 'v list" where
  "col_divy fresh sz cap col =
     (if col = [] then Inr (replicate cap fresh)
      else if length col < min sz cap then Inl OutOfBounds
      else Inr (take (min sz cap) col @ replicate (cap - min sz cap) fresh))"

subsection \<open>All columns: the recursion of \<^verbatim>\<open>_soa_base<FT, RTs...>\<close> over the type list\<close>

fun each_col :: "('v list \<Rightarrow> error + 'v list) \<Rightarrow> 'v list list \<Rightarrow> error + 'v list list" where
  "each_col f [] = Inr []"
| "each_col f (col # cols) =
     (case f col of
        Inl x \<Rightarrow> Inl x
      | Inr col' \<Rightarrow> (case each_col f cols of Inl x \<Rightarrow> Inl x | Inr cols' \<Rightarrow> Inr (col' # cols')))"

text \<open>The same with one argument per column (\<^verbatim>\<open>first, rest...\<close>).\<close>

fun each_col_arg ::
  "('v \<Rightarrow> 'v list \<Rightarrow> error + 'v list) \<Rightarrow> 'v list \<Rightarrow> 'v list list \<Rightarrow> error + 'v list list" where
  "each_col_arg f vs [] = Inr []"
| "each_col_arg f [] (col # cols) = Inr (col # cols)"
| "each_col_arg f (v # vs) (col # cols) =
     (case f v col of
        Inl x \<Rightarrow> Inl x
      | Inr col' \<Rightarrow>
          (case each_col_arg f vs cols of Inl x \<Rightarrow> Inl x | Inr cols' \<Rightarrow> Inr (col' # cols')))"

definition nullify :: "('v, 'm) soa_scheme \<Rightarrow> ('v, 'm) soa_scheme" where
  "nullify s = s\<lparr> mydata := map (\<lambda>col. []) (mydata s) \<rparr>"

definition with_cols ::
  "('v, 'm) soa_scheme \<Rightarrow> error + 'v list list \<Rightarrow> error + ('v, 'm) soa_scheme" where
  "with_cols s r = (case r of Inl x \<Rightarrow> Inl x | Inr cols \<Rightarrow> Inr (s\<lparr> mydata := cols \<rparr>))"

definition construct_range ::
  "nat \<Rightarrow> nat \<Rightarrow> 'v list \<Rightarrow> ('v, 'm) soa_scheme \<Rightarrow> error + ('v, 'm) soa_scheme" where
  "construct_range start fin initvals s =
     with_cols s (each_col_arg (col_construct_range start fin) initvals (mydata s))"

definition destruct_range ::
  "nat \<Rightarrow> nat \<Rightarrow> ('v, 'm) soa_scheme \<Rightarrow> error + ('v, 'm) soa_scheme" where
  "destruct_range start fin s =
     with_cols s (each_col (col_destruct_range start fin) (mydata s))"

definition divy_buffer :: "'v env \<Rightarrow> ('v, 'm) soa_scheme \<Rightarrow> error + ('v, 'm) soa_scheme" where
  "divy_buffer e s =
     with_cols s (each_col (col_divy (junk e) (mysize s) (mycapacity s)) (mydata s))"

text \<open>The protected per-row operations of \<^verbatim>\<open>_soa_base\<close>, which do not touch \<open>mysize\<close>.\<close>

definition base_push_back :: "'v list \<Rightarrow> ('v, 'm) soa_scheme \<Rightarrow> error + ('v, 'm) soa_scheme" where
  "base_push_back row s =
     with_cols s (each_col_arg (col_construct (mysize s)) row (mydata s))"

definition base_erase_swap :: "nat \<Rightarrow> ('v, 'm) soa_scheme \<Rightarrow> error + ('v, 'm) soa_scheme" where
  "base_erase_swap location s =
     with_cols s
       (each_col
          (\<lambda>col. case col_swap location (mysize s - 1) col of
                    Inl x \<Rightarrow> Inl x
                  | Inr col' \<Rightarrow> col_destruct (mysize s - 1) col')
          (mydata s))"

definition base_erase_shift :: "nat \<Rightarrow> ('v, 'm) soa_scheme \<Rightarrow> error + ('v, 'm) soa_scheme" where
  "base_erase_shift location s =
     with_cols s
       (each_col
          (\<lambda>col. case col_destruct location col of
                    Inl x \<Rightarrow> Inl x
                  | Inr col' \<Rightarrow> col_memmove location (location + 1) (mysize s - location) col')
          (mydata s))"

definition base_swap_entries ::
  "nat \<Rightarrow> nat \<Rightarrow> ('v, 'm) soa_scheme \<Rightarrow> error + ('v, 'm) soa_scheme" where
  "base_swap_entries first second s = with_cols s (each_col (col_swap first second) (mydata s))"

subsection \<open>The public operations of \<^verbatim>\<open>soa\<close>\<close>

definition round16 :: "nat \<Rightarrow> nat" where
  "round16 newsize =
     (if newsize mod 16 \<noteq> 0 then wrap64 (newsize + (16 - newsize mod 16)) else newsize)"

definition reserve ::
  "'v env \<Rightarrow> ('v, 'm) soa_scheme \<Rightarrow> nat \<Rightarrow> error + bool \<times> ('v, 'm) soa_scheme" where
  "reserve e s n =
     (let newsize = (if round16 n = 0 then 16 else round16 n) in
      if newsize \<le> mycapacity s then Inr (True, s)
      else if \<not> malloc_ok e (wrap64 (size_per_entry (sizeofs e) * newsize)) then Inr (False, s)
      else (case divy_buffer e (s\<lparr> mycapacity := newsize \<rparr>) of
              Inl x \<Rightarrow> Inl x
            | Inr s' \<Rightarrow> Inr (True, s')))"

definition shrink_to_fit ::
  "'v env \<Rightarrow> ('v, 'm) soa_scheme \<Rightarrow> error + bool \<times> ('v, 'm) soa_scheme" where
  "shrink_to_fit e s =
     (let newsize = round16 (mysize s) in
      if newsize = mycapacity s then Inr (True, s)
      else if newsize > 0
      then (if \<not> malloc_ok e (wrap64 (size_per_entry (sizeofs e) * newsize)) then Inr (False, s)
            else (case divy_buffer e (s\<lparr> mycapacity := newsize \<rparr>) of
                    Inl x \<Rightarrow> Inl x
                  | Inr s' \<Rightarrow> Inr (True, s')))
      else Inr (True, (nullify s)\<lparr> mycapacity := 0 \<rparr>))"

text \<open>\<^verbatim>\<open>resize(newsize)\<close>: new rows are default-constructed.\<close>

definition resize ::
  "'v env \<Rightarrow> ('v, 'm) soa_scheme \<Rightarrow> nat \<Rightarrow> error + bool \<times> ('v, 'm) soa_scheme" where
  "resize e s newsize =
     (if newsize > mysize s
      then (case (if newsize > mycapacity s then reserve e s newsize else Inr (True, s)) of
              Inl x \<Rightarrow> Inl x
            | Inr (ok, s1) \<Rightarrow>
                if \<not> ok then Inr (False, s1)
                else (case construct_range (mysize s1) newsize (defaults e) s1 of
                        Inl x \<Rightarrow> Inl x
                      | Inr s2 \<Rightarrow> Inr (True, s2\<lparr> mysize := newsize \<rparr>)))
      else if newsize < mysize s
      then (case destruct_range newsize (mysize s) s of
              Inl x \<Rightarrow> Inl x
            | Inr s1 \<Rightarrow> Inr (True, s1\<lparr> mysize := newsize \<rparr>))
      else Inr (True, s))"

text \<open>\<^verbatim>\<open>resize(newsize, initvals...)\<close>: new rows are copy-constructed from \<open>initvals\<close>.\<close>

definition resize_initvals ::
  "'v env \<Rightarrow> ('v, 'm) soa_scheme \<Rightarrow> nat \<Rightarrow> 'v list \<Rightarrow> error + bool \<times> ('v, 'm) soa_scheme" where
  "resize_initvals e s newsize initvals =
     (if newsize > mysize s
      then (case (if newsize > mycapacity s then reserve e s newsize else Inr (True, s)) of
              Inl x \<Rightarrow> Inl x
            | Inr (ok, s1) \<Rightarrow>
                if \<not> ok then Inr (False, s1)
                else (case construct_range (mysize s1) newsize initvals s1 of
                        Inl x \<Rightarrow> Inl x
                      | Inr s2 \<Rightarrow> Inr (True, s2)))
      else if newsize < mysize s
      then (case destruct_range newsize (mysize s) s of
              Inl x \<Rightarrow> Inl x
            | Inr s1 \<Rightarrow> Inr (True, s1\<lparr> mysize := newsize \<rparr>))
      else Inr (True, s))"

definition push_back ::
  "'v env \<Rightarrow> ('v, 'm) soa_scheme \<Rightarrow> 'v list \<Rightarrow> error + bool \<times> ('v, 'm) soa_scheme" where
  "push_back e s row =
     (case (if mysize s = mycapacity s then reserve e s (wrap64 (mycapacity s * 2))
            else Inr (True, s)) of
        Inl x \<Rightarrow> Inl x
      | Inr (ok, s1) \<Rightarrow>
          if \<not> ok then Inr (False, s1)
          else (case base_push_back row s1 of
                  Inl x \<Rightarrow> Inl x
                | Inr s2 \<Rightarrow> Inr (True, s2\<lparr> mysize := wrap64 (mysize s2 + 1) \<rparr>)))"

definition pop_back :: "('v, 'm) soa_scheme \<Rightarrow> error + ('v, 'm) soa_scheme" where
  "pop_back s =
     (if mysize s = 0 then Inr s
      else (case with_cols s (each_col (col_destruct (mysize s - 1)) (mydata s)) of
              Inl x \<Rightarrow> Inl x
            | Inr s1 \<Rightarrow> Inr (s1\<lparr> mysize := mysize s1 - 1 \<rparr>)))"

definition erase_swap :: "('v, 'm) soa_scheme \<Rightarrow> nat \<Rightarrow> error + ('v, 'm) soa_scheme" where
  "erase_swap s location =
     (if location \<ge> mysize s then Inr s
      else (case base_erase_swap location s of
              Inl x \<Rightarrow> Inl x
            | Inr s1 \<Rightarrow> Inr (s1\<lparr> mysize := mysize s1 - 1 \<rparr>)))"

definition erase_shift :: "('v, 'm) soa_scheme \<Rightarrow> nat \<Rightarrow> error + ('v, 'm) soa_scheme" where
  "erase_shift s location =
     (if location \<ge> mysize s then Inr s
      else (case base_erase_shift location s of
              Inl x \<Rightarrow> Inl x
            | Inr s1 \<Rightarrow> Inr (s1\<lparr> mysize := mysize s1 - 1 \<rparr>)))"

definition swap_entries ::
  "('v, 'm) soa_scheme \<Rightarrow> nat \<Rightarrow> nat \<Rightarrow> error + ('v, 'm) soa_scheme" where
  "swap_entries s first second =
     (if first \<ge> mysize s \<or> second \<ge> mysize s then Inr s
      else base_swap_entries first second s)"

text \<open>
  \<^verbatim>\<open>serialize\<close> and \<^verbatim>\<open>deserialize\<close> return the new state and \<open>num_bytes\<close>; the
  pointer they return is the start of the block, whose cells \<open>raw_buffer\<close> reads in
  memory order and \<open>fill_buffer\<close> overwrites in memory order.
\<close>

definition serialize ::
  "'v env \<Rightarrow> ('v, 'm) soa_scheme \<Rightarrow> error + nat \<times> ('v, 'm) soa_scheme" where
  "serialize e s =
     (case shrink_to_fit e s of
        Inl x \<Rightarrow> Inl x
      | Inr (ok, s1) \<Rightarrow> Inr (wrap64 (size_per_entry (sizeofs e) * mycapacity s1), s1))"

definition deserialize ::
  "'v env \<Rightarrow> ('v, 'm) soa_scheme \<Rightarrow> nat \<Rightarrow> error + nat \<times> ('v, 'm) soa_scheme" where
  "deserialize e s num_elements =
     (case reserve e s num_elements of
        Inl x \<Rightarrow> Inl x
      | Inr (ok, s1) \<Rightarrow>
          Inr (wrap64 (size_per_entry (sizeofs e) * mycapacity s1), s1\<lparr> mysize := num_elements \<rparr>))"

definition raw_buffer :: "('v, 'm) soa_scheme \<Rightarrow> 'v list" where
  "raw_buffer s = concat (mydata s)"

fun fill_cols :: "'v list \<Rightarrow> 'v list list \<Rightarrow> 'v list list" where
  "fill_cols cells [] = []"
| "fill_cols cells (col # cols) =
     (take (length col) cells @ drop (length cells) col) # fill_cols (drop (length col) cells) cols"

definition fill_buffer :: "('v, 'm) soa_scheme \<Rightarrow> 'v list \<Rightarrow> ('v, 'm) soa_scheme" where
  "fill_buffer s cells = s\<lparr> mydata := fill_cols cells (mydata s) \<rparr>"

definition size_soa :: "('v, 'm) soa_scheme \<Rightarrow> nat" where
  "size_soa s = mysize s"

definition capacity :: "('v, 'm) soa_scheme \<Rightarrow> nat" where
  "capacity s = mycapacity s"

text \<open>\<^verbatim>\<open>at<K>(index)\<close>: no bounds check in the source, an error here.\<close>

definition at_cols :: "nat \<Rightarrow> 'v list list \<Rightarrow> nat \<Rightarrow> error + 'v" where
  "at_cols K cols index =
     (if K < length cols \<and> index < length (cols ! K) then Inr (cols ! K ! index)
      else Inl OutOfBounds)"

definition at :: "nat \<Rightarrow> ('v, 'm) soa_scheme \<Rightarrow> nat \<Rightarrow> error + 'v" where
  "at K s index = at_cols K (mydata s) index"

section \<open>The hash index (htable.hpp)\<close>

text \<open>
  \<open>hashmap\<close> is the list of the \<^verbatim>\<open>uint32_t\<close> cells at the start of the block, in front
  of the columns: \<^verbatim>\<open>htable_size / sizeof(uint32_t)\<close> of them, which is one more than
  \<open>hashcapacity\<close>; \<open>[]\<close> is \<^verbatim>\<open>nullptr\<close>.
\<close>

record 'v htable = "'v soa" +
  hashmap :: "nat list"
  hashcapacity :: nat
  hashcursor :: nat

definition INDEXNUL :: nat where
  "INDEXNUL = UINT_MAX"

definition INDEXDEL :: nat where
  "INDEXDEL = UINT_MAX - 1"

definition max_size :: nat where
  "max_size = UINT_MAX - 2"

definition htable_empty :: "nat \<Rightarrow> 'v htable" where
  "htable_empty ncols =
     \<lparr> mysize = 0, mycapacity = 0, mydata = replicate ncols [],
       hashmap = [], hashcapacity = 0, hashcursor = SIZE_MAX \<rparr>"

text \<open>\<^verbatim>\<open>h = ((h + 2) % hashcapacity)\<close>\<close>

definition hash_inc :: "nat \<Rightarrow> nat \<Rightarrow> error + nat" where
  "hash_inc cap h = (if cap = 0 then Inl DivByZero else Inr (wrap64 (h + 2) mod cap))"

text \<open>
  The probe loop of \<^verbatim>\<open>rehash\<close>, \<^verbatim>\<open>insert\<close> and \<^verbatim>\<open>emplace\<close>: walk from slot \<open>h\<close> to the
  first slot that is \<open>INDEXNUL\<close> or \<open>INDEXDEL\<close>.
\<close>

partial_function (option) open_slot :: "nat list \<Rightarrow> nat \<Rightarrow> nat \<Rightarrow> (error + nat) option" where
  "open_slot hm cap h =
     (if length hm \<le> h then Some (Inl OutOfBounds)
      else if hm ! h = INDEXNUL \<or> hm ! h = INDEXDEL then Some (Inr h)
      else (case hash_inc cap h of
              Inl x \<Rightarrow> Some (Inl x)
            | Inr h' \<Rightarrow> open_slot hm cap h'))"

text \<open>
  The probe loop of the three \<^verbatim>\<open>find\<close> overloads, from slot \<open>c\<close>, over the slot array,
  \<open>hashcapacity\<close> and the columns of the table: the result is the last slot visited and the
  row index found (\<open>SIZE_MAX\<close> for none).
\<close>

partial_function (option) find_loop ::
  "nat list \<Rightarrow> nat \<Rightarrow> 'v list list \<Rightarrow> 'v \<Rightarrow> nat \<Rightarrow> (error + nat \<times> nat) option" where
  "find_loop hm cap cols key c =
     (if length hm \<le> c then Some (Inl OutOfBounds)
      else if hm ! c = INDEXNUL then Some (Inr (c, SIZE_MAX))
      else if hm ! c = INDEXDEL
      then (case hash_inc cap c of
              Inl x \<Rightarrow> Some (Inl x)
            | Inr c' \<Rightarrow> find_loop hm cap cols key c')
      else (case at_cols 0 cols (hm ! c) of
              Inl x \<Rightarrow> Some (Inl x)
            | Inr k \<Rightarrow>
                if k = key then Some (Inr (c, hm ! c))
                else (case hash_inc cap c of
                        Inl x \<Rightarrow> Some (Inl x)
                      | Inr c' \<Rightarrow> find_loop hm cap cols key c')))"

text \<open>
  The repair loops of \<^verbatim>\<open>erase_found\<close> and \<^verbatim>\<open>swap_entries\<close>: walk from slot \<open>h\<close> to the
  first slot holding \<open>target\<close> (the result is that slot) or \<open>INDEXNUL\<close> (no result).
\<close>

partial_function (option) locate_slot ::
  "nat list \<Rightarrow> nat \<Rightarrow> nat \<Rightarrow> nat \<Rightarrow> (error + nat option) option" where
  "locate_slot hm cap target h =
     (if length hm \<le> h then Some (Inl OutOfBounds)
      else if hm ! h = target then Some (Inr (Some h))
      else if hm ! h = INDEXNUL then Some (Inr None)
      else (case hash_inc cap h of
              Inl x \<Rightarrow> Some (Inl x)
            | Inr h' \<Rightarrow> locate_slot hm cap target h'))"

text \<open>
  \<^verbatim>\<open>rehash\<close>: the \<^verbatim>\<open>memset\<close> over \<open>sizeof(uint32_t) * hashcapacity\<close> bytes, then the
  rows \<open>0 .. mysize - 1\<close> in order.
\<close>

fun rehash_rows ::
  "'v env \<Rightarrow> ('v, 'm) htable_scheme \<Rightarrow> nat list \<Rightarrow> nat list \<Rightarrow> (error + nat list) option" where
  "rehash_rows e s [] hm = Some (Inr hm)"
| "rehash_rows e s (i # rows) hm =
     (case at 0 s i of
        Inl x \<Rightarrow> Some (Inl x)
      | Inr k \<Rightarrow>
          if hashcapacity s = 0 then Some (Inl DivByZero)
          else (case open_slot hm (hashcapacity s) (std_hash e k mod hashcapacity s) of
                  None \<Rightarrow> None
                | Some (Inl x) \<Rightarrow> Some (Inl x)
                | Some (Inr h) \<Rightarrow> rehash_rows e s rows (hm[h := u32 i])))"

definition memset_slots :: "nat \<Rightarrow> nat list \<Rightarrow> error + nat list" where
  "memset_slots nbytes hm =
     (if length hm < nbytes div 4 then Inl OutOfBounds
      else Inr (replicate (nbytes div 4) INDEXNUL @ drop (nbytes div 4) hm))"

definition rehash ::
  "'v env \<Rightarrow> ('v, 'm) htable_scheme \<Rightarrow> (error + ('v, 'm) htable_scheme) option" where
  "rehash e s =
     (case memset_slots (wrap64 (4 * hashcapacity s)) (hashmap s) of
        Inl x \<Rightarrow> Some (Inl x)
      | Inr hm0 \<Rightarrow>
          (case rehash_rows e s [0..<mysize s] hm0 of
             None \<Rightarrow> None
           | Some (Inl x) \<Rightarrow> Some (Inl x)
           | Some (Inr hm) \<Rightarrow> Some (Inr (s\<lparr> hashmap := hm, hashcursor := SIZE_MAX \<rparr>))))"

text \<open>
  \<^verbatim>\<open>htable::reserve\<close>. The member \<open>hashcapacity\<close> is assigned before the allocation is
  attempted. The cells of the new slot array are fresh memory (written as 0 here) until
  \<^verbatim>\<open>rehash\<close> overwrites them.
\<close>

definition reserve_ht ::
  "'v env \<Rightarrow> ('v, 'm) htable_scheme \<Rightarrow> nat \<Rightarrow> (error + bool \<times> ('v, 'm) htable_scheme) option" where
  "reserve_ht e s n =
     (let newsize = (if round16 n = 0 then 16 else round16 n);
          hc = wrap64 (newsize + newsize + 4);
          htable_size = wrap64 (hc * 4)
      in if newsize \<le> mycapacity s then Some (Inr (True, s))
         else if \<not> malloc_ok e (wrap64 (wrap64 (size_per_entry (sizeofs e) * newsize) + htable_size))
         then Some (Inr (False, s\<lparr> hashcapacity := dec64 hc \<rparr>))
         else (case divy_buffer e
                      (s\<lparr> mycapacity := newsize, hashmap := replicate (htable_size div 4) 0,
                          hashcapacity := dec64 hc \<rparr>) of
                 Inl x \<Rightarrow> Some (Inl x)
               | Inr s1 \<Rightarrow>
                   (case rehash e s1 of
                      None \<Rightarrow> None
                    | Some (Inl x) \<Rightarrow> Some (Inl x)
                    | Some (Inr s2) \<Rightarrow> Some (Inr (True, s2)))))"

text \<open>
  \<^verbatim>\<open>insert(key, items...)\<close>; the row is \<open>key # items\<close>. The result of the inner
  \<^verbatim>\<open>soa::push_back\<close> is not looked at by the source.
\<close>

definition insert_ht ::
  "'v env \<Rightarrow> ('v, 'm) htable_scheme \<Rightarrow> 'v \<Rightarrow> 'v list \<Rightarrow>
     (error + bool \<times> ('v, 'm) htable_scheme) option" where
  "insert_ht e s key items =
     (if mysize s = max_size then Some (Inr (False, s))
      else (case (if mysize s = mycapacity s then reserve_ht e s (wrap64 (mycapacity s * 2))
                  else Some (Inr (True, s))) of
              None \<Rightarrow> None
            | Some (Inl x) \<Rightarrow> Some (Inl x)
            | Some (Inr (ok, s1)) \<Rightarrow>
                if \<not> ok then Some (Inr (False, s1))
                else if hashcapacity s1 = 0 then Some (Inl DivByZero)
                else (case open_slot (hashmap s1) (hashcapacity s1)
                             (std_hash e key mod hashcapacity s1) of
                        None \<Rightarrow> None
                      | Some (Inl x) \<Rightarrow> Some (Inl x)
                      | Some (Inr h) \<Rightarrow>
                          (case push_back e s1 (key # items) of
                             Inl x \<Rightarrow> Some (Inl x)
                           | Inr (pushed, s2) \<Rightarrow>
                               Some (Inr (True,
                                 s2\<lparr> hashmap := (hashmap s2)[h := u32 (mysize s1)] \<rparr>))))))"

text \<open>\<^verbatim>\<open>find(key, restart)\<close>, with the cursor in the table.\<close>

definition find_ht ::
  "'v env \<Rightarrow> ('v, 'm) htable_scheme \<Rightarrow> 'v \<Rightarrow> bool \<Rightarrow>
     (error + nat \<times> ('v, 'm) htable_scheme) option" where
  "find_ht e s key restart =
     (if mysize s = 0 then Some (Inr (SIZE_MAX, s))
      else (case (if restart
                  then (if hashcapacity s = 0 then Inl DivByZero
                        else Inr (Some (std_hash e key mod hashcapacity s)))
                  else (if hashcursor s \<ge> hashcapacity s then Inr None
                        else map_sum id Some (hash_inc (hashcapacity s) (hashcursor s)))) of
              Inl x \<Rightarrow> Some (Inl x)
            | Inr None \<Rightarrow> Some (Inr (SIZE_MAX, s))
            | Inr (Some c) \<Rightarrow>
                (case find_loop (hashmap s) (hashcapacity s) (mydata s) key c of
                   None \<Rightarrow> None
                 | Some (Inl x) \<Rightarrow> Some (Inl x)
                 | Some (Inr (c', index)) \<Rightarrow> Some (Inr (index, s\<lparr> hashcursor := c' \<rparr>)))))"

text \<open>\<^verbatim>\<open>find(key) const\<close>, with a local cursor.\<close>

definition find_const ::
  "'v env \<Rightarrow> ('v, 'm) htable_scheme \<Rightarrow> 'v \<Rightarrow> (error + nat) option" where
  "find_const e s key =
     (if mysize s = 0 then Some (Inr SIZE_MAX)
      else if hashcapacity s = 0 then Some (Inl DivByZero)
      else (case find_loop (hashmap s) (hashcapacity s) (mydata s) key
                   (std_hash e key mod hashcapacity s) of
              None \<Rightarrow> None
            | Some (Inl x) \<Rightarrow> Some (Inl x)
            | Some (Inr (c', index)) \<Rightarrow> Some (Inr index)))"

text \<open>\<^verbatim>\<open>find(key, restart, hashc) const\<close>, with the caller's cursor; the result is the
  row index and the cursor.\<close>

definition find_hashc ::
  "'v env \<Rightarrow> ('v, 'm) htable_scheme \<Rightarrow> 'v \<Rightarrow> bool \<Rightarrow> nat \<Rightarrow> (error + nat \<times> nat) option" where
  "find_hashc e s key restart hashc =
     (if mysize s = 0 then Some (Inr (SIZE_MAX, hashc))
      else (case (if restart
                  then (if hashcapacity s = 0 then Inl DivByZero
                        else Inr (Some (std_hash e key mod hashcapacity s)))
                  else (if hashc \<ge> hashcapacity s then Inr None
                        else map_sum id Some (hash_inc (hashcapacity s) hashc))) of
              Inl x \<Rightarrow> Some (Inl x)
            | Inr None \<Rightarrow> Some (Inr (SIZE_MAX, hashc))
            | Inr (Some c) \<Rightarrow>
                (case find_loop (hashmap s) (hashcapacity s) (mydata s) key c of
                   None \<Rightarrow> None
                 | Some (Inl x) \<Rightarrow> Some (Inl x)
                 | Some (Inr (c', index)) \<Rightarrow> Some (Inr (index, c')))))"

text \<open>
  \<^verbatim>\<open>at<0>(index)\<close> where the row may be one without an object, at or above \<open>mysize\<close>:
  the bytes of a trivially destructible key are still its value, and a key of class type
  is used after its destructor has run.
\<close>

definition at_key :: "'v env \<Rightarrow> ('v, 'm) soa_scheme \<Rightarrow> nat \<Rightarrow> error + 'v" where
  "at_key e s index =
     (if mysize s \<le> index \<and> \<not> trivial_key e then Inl Destroyed else at 0 s index)"

text \<open>
  \<^verbatim>\<open>erase_found()\<close>: the result is the number of rows erased and the new table. The key
  that is hashed for the repair loop is read at \<open>index\<close> after \<^verbatim>\<open>erase_swap(index)\<close>: when the
  row found was the last row, that is the row \<^verbatim>\<open>erase_swap\<close> has just destructed.
\<close>

definition erase_found ::
  "'v env \<Rightarrow> ('v, 'm) htable_scheme \<Rightarrow> (error + nat \<times> ('v, 'm) htable_scheme) option" where
  "erase_found e s =
     (if hashcursor s \<ge> hashcapacity s then Some (Inr (0, s))
      else if length (hashmap s) \<le> hashcursor s then Some (Inl OutOfBounds)
      else if hashmap s ! hashcursor s = INDEXNUL \<or> hashmap s ! hashcursor s = INDEXDEL
      then Some (Inr (0, s))
      else (case erase_swap s (hashmap s ! hashcursor s) of
              Inl x \<Rightarrow> Some (Inl x)
            | Inr s1 \<Rightarrow>
                (case at_key e s1 (hashmap s ! hashcursor s) of
                   Inl x \<Rightarrow> Some (Inl x)
                 | Inr k \<Rightarrow>
                     (case locate_slot ((hashmap s1)[hashcursor s1 := INDEXDEL]) (hashcapacity s1)
                             (mysize s1) (std_hash e k mod hashcapacity s1) of
                        None \<Rightarrow> None
                      | Some (Inl x) \<Rightarrow> Some (Inl x)
                      | Some (Inr None) \<Rightarrow>
                          Some (Inr (1, s1\<lparr> hashmap := (hashmap s1)[hashcursor s1 := INDEXDEL] \<rparr>))
                      | Some (Inr (Some h)) \<Rightarrow>
                          Some (Inr (1, s1\<lparr> hashmap := (hashmap s1)
                                   [hashcursor s1 := INDEXDEL, h := hashmap s ! hashcursor s] \<rparr>))))))"

text \<open>\<^verbatim>\<open>erase(key)\<close>\<close>

definition erase ::
  "'v env \<Rightarrow> ('v, 'm) htable_scheme \<Rightarrow> 'v \<Rightarrow> (error + nat \<times> ('v, 'm) htable_scheme) option" where
  "erase e s key =
     (case find_ht e s key True of
        None \<Rightarrow> None
      | Some (Inl x) \<Rightarrow> Some (Inl x)
      | Some (Inr (index, s1)) \<Rightarrow> erase_found e s1)"

text \<open>
  \<^verbatim>\<open>htable::swap_entries(first, second)\<close>. A slot that is not found leaves its
  position at \<open>SIZE_MAX\<close>, and the two final stores are made at whatever the positions are.
\<close>

definition store_slot :: "nat \<Rightarrow> nat \<Rightarrow> nat list \<Rightarrow> error + nat list" where
  "store_slot pos v hm = (if pos < length hm then Inr (hm[pos := v]) else Inl OutOfBounds)"

definition hashpos :: "nat option \<Rightarrow> nat" where
  "hashpos r = (case r of None \<Rightarrow> SIZE_MAX | Some h \<Rightarrow> h)"

definition swap_entries_ht ::
  "'v env \<Rightarrow> ('v, 'm) htable_scheme \<Rightarrow> nat \<Rightarrow> nat \<Rightarrow> (error + ('v, 'm) htable_scheme) option" where
  "swap_entries_ht e s first second =
     (case swap_entries s first second of
        Inl x \<Rightarrow> Some (Inl x)
      | Inr s1 \<Rightarrow>
          (case at 0 s1 first of
             Inl x \<Rightarrow> Some (Inl x)
           | Inr k1 \<Rightarrow>
               if hashcapacity s1 = 0 then Some (Inl DivByZero)
               else (case locate_slot (hashmap s1) (hashcapacity s1) (u32 first)
                            (std_hash e k1 mod hashcapacity s1) of
                       None \<Rightarrow> None
                     | Some (Inl x) \<Rightarrow> Some (Inl x)
                     | Some (Inr first_hashpos) \<Rightarrow>
                         (case at 0 s1 second of
                            Inl x \<Rightarrow> Some (Inl x)
                          | Inr k2 \<Rightarrow>
                              (case locate_slot (hashmap s1) (hashcapacity s1) (u32 second)
                                      (std_hash e k2 mod hashcapacity s1) of
                                 None \<Rightarrow> None
                               | Some (Inl x) \<Rightarrow> Some (Inl x)
                               | Some (Inr second_hashpos) \<Rightarrow>
                                   (case store_slot (hashpos first_hashpos) (u32 second)
                                           (hashmap s1) of
                                      Inl x \<Rightarrow> Some (Inl x)
                                    | Inr hm1 \<Rightarrow>
                                        (case store_slot (hashpos second_hashpos) (u32 first) hm1 of
                                           Inl x \<Rightarrow> Some (Inl x)
                                         | Inr hm2 \<Rightarrow> Some (Inr (s1\<lparr> hashmap := hm2 \<rparr>)))))))))"

section \<open>Concrete environments and observations used in the statements\<close>

text \<open>
  Two columns of 4-byte integers, with the identity as hash function (what libstdc++ uses for
  integers); an allocator that grants every request, one that grants none, and one that
  grants at most 1024 bytes.
\<close>

definition env_nat :: "nat env" where
  "env_nat = \<lparr> std_hash = id, sizeofs = [4, 4], malloc_ok = (\<lambda>bytes. True), junk = 0,
               defaults = [0, 0], trivial_key = True \<rparr>"

definition env_nomem :: "nat env" where
  "env_nomem = \<lparr> std_hash = id, sizeofs = [4, 4], malloc_ok = (\<lambda>bytes. False), junk = 0,
               defaults = [0, 0], trivial_key = True \<rparr>"

definition env_small :: "nat env" where
  "env_small = \<lparr> std_hash = id, sizeofs = [4, 4], malloc_ok = (\<lambda>bytes. bytes \<le> 1024), junk = 0,
               defaults = [0, 0], trivial_key = True \<rparr>"

text \<open>What a caller observes of a call that reports success or failure.\<close>

definition outcome :: "error + bool \<times> ('v, 'm) soa_scheme \<Rightarrow> error + bool \<times> nat \<times> nat" where
  "outcome r = map_sum id (\<lambda>(ok, s). (ok, size_soa s, capacity s)) r"

definition sizes_after :: "error + nat \<times> ('v, 'm) soa_scheme \<Rightarrow> error + nat \<times> nat" where
  "sizes_after r = map_sum id (\<lambda>(num_bytes, s). (size_soa s, capacity s)) r"

text \<open>
  Tables with two columns of integers: the table after \<^verbatim>\<open>reserve(0)\<close> on a
  default-constructed one, the tables after inserting the row \<open>(40, 12)\<close>, the row
  \<open>(0, 10)\<close>, and the rows \<open>(0, 10)\<close> and \<open>(1, 11)\<close>.
\<close>

definition table16 :: "nat htable" where
  "table16 = \<lparr> mysize = 0, mycapacity = 16, mydata = [replicate 16 0, replicate 16 0],
       hashmap = replicate 35 INDEXNUL @ [0], hashcapacity = 35, hashcursor = SIZE_MAX \<rparr>"

definition table_40 :: "nat htable" where
  "table_40 = \<lparr> mysize = 1, mycapacity = 16,
       mydata = [(replicate 16 0)[0 := 40], (replicate 16 0)[0 := 12]],
       hashmap = (replicate 35 INDEXNUL @ [0])[5 := 0], hashcapacity = 35,
       hashcursor = SIZE_MAX \<rparr>"

definition table_0 :: "nat htable" where
  "table_0 = \<lparr> mysize = 1, mycapacity = 16,
       mydata = [(replicate 16 0)[0 := 0], (replicate 16 0)[0 := 10]],
       hashmap = (replicate 35 INDEXNUL @ [0])[0 := 0], hashcapacity = 35,
       hashcursor = SIZE_MAX \<rparr>"

definition table_0_1 :: "nat htable" where
  "table_0_1 = \<lparr> mysize = 2, mycapacity = 16,
       mydata = [(replicate 16 0)[0 := 0, 1 := 1], (replicate 16 0)[0 := 10, 1 := 11]],
       hashmap = (replicate 35 INDEXNUL @ [0])[0 := 0, 1 := 1], hashcapacity = 35,
       hashcursor = SIZE_MAX \<rparr>"

text \<open>
  A well-formed column store: the size is within the capacity and every column has one
  cell per allocated row slot. \<open>live\<close> is what the rows \<open>0 .. mysize - 1\<close> hold, column
  by column.
\<close>

definition soa_wf :: "('v, 'm) soa_scheme \<Rightarrow> bool" where
  "soa_wf s \<longleftrightarrow> mysize s \<le> mycapacity s \<and> list_all (\<lambda>col. length col = mycapacity s) (mydata s)"

definition live :: "('v, 'm) soa_scheme \<Rightarrow> 'v list list" where
  "live s = map (take (mysize s)) (mydata s)"

text \<open>One column holding the rows 10, 20, 30 in a block of 16 row slots.\<close>

definition rows_10_20_30 :: "nat soa" where
  "rows_10_20_30 = \<lparr> mysize = 3, mycapacity = 16, mydata = [[10, 20, 30] @ replicate 13 0] \<rparr>"

text \<open>Two columns holding the rows \<open>(1, 10)\<close> and \<open>(2, 20)\<close> in a block of 32 row slots.\<close>

definition rows_2x2 :: "nat soa" where
  "rows_2x2 = \<lparr> mysize = 2, mycapacity = 32,
       mydata = [[1, 2] @ replicate 30 0, [10, 20] @ replicate 30 0] \<rparr>"

text \<open>
  The probe sequence of a start slot: \<open>probe_seq cap h n\<close> is the slot reached from \<open>h\<close>
  by \<open>n\<close> applications of \<^verbatim>\<open>hash_inc\<close>, and \<open>probe cap h n\<close> is its closed form.
\<close>

fun probe_seq :: "nat \<Rightarrow> nat \<Rightarrow> nat \<Rightarrow> error + nat" where
  "probe_seq cap h 0 = Inr h"
| "probe_seq cap h (Suc n) = (case probe_seq cap h n of Inl x \<Rightarrow> Inl x | Inr c \<Rightarrow> hash_inc cap c)"

definition probe :: "nat \<Rightarrow> nat \<Rightarrow> nat \<Rightarrow> nat" where
  "probe cap h n = (h + 2 * n) mod cap"

text \<open>What \<^verbatim>\<open>htable::reserve\<close> reports, with the row capacity and the slot count it leaves.\<close>

definition capacities ::
  "(error + bool \<times> ('v, 'm) htable_scheme) option \<Rightarrow> (error + bool \<times> nat \<times> nat) option" where
  "capacities r = map_option (map_sum id (\<lambda>(ok, s). (ok, mycapacity s, hashcapacity s))) r"

text \<open>
  The call sequence of claim C1: \<^verbatim>\<open>find(key, true)\<close> followed by \<open>n\<close> calls
  \<^verbatim>\<open>find(key, false)\<close>, with the list of the row indices returned.
\<close>

fun find_more :: "'v env \<Rightarrow> ('v, 'm) htable_scheme \<Rightarrow> 'v \<Rightarrow> nat \<Rightarrow> (error + nat list) option" where
  "find_more e s key 0 = Some (Inr [])"
| "find_more e s key (Suc n) =
     (case find_ht e s key False of
        None \<Rightarrow> None
      | Some (Inl x) \<Rightarrow> Some (Inl x)
      | Some (Inr (index, s')) \<Rightarrow>
          (case find_more e s' key n of
             None \<Rightarrow> None
           | Some (Inl x) \<Rightarrow> Some (Inl x)
           | Some (Inr rest) \<Rightarrow> Some (Inr (index # rest))))"

definition find_seq :: "'v env \<Rightarrow> ('v, 'm) htable_scheme \<Rightarrow> 'v \<Rightarrow> nat \<Rightarrow> (error + nat list) option" where
  "find_seq e s key n =
     (case find_ht e s key True of
        None \<Rightarrow> None
      | Some (Inl x) \<Rightarrow> Some (Inl x)
      | Some (Inr (index, s')) \<Rightarrow>
          (case find_more e s' key n of
             None \<Rightarrow> None
           | Some (Inl x) \<Rightarrow> Some (Inl x)
           | Some (Inr rest) \<Rightarrow> Some (Inr (index # rest))))"

text \<open>
  The row indices that a walk over the slots \<open>p .. N - 1\<close> of the probe sequence from \<open>h\<close>
  meets in occupied slots whose row has the key, in the order of the walk.
\<close>

definition chain_hits ::
  "nat list \<Rightarrow> nat \<Rightarrow> 'v list list \<Rightarrow> 'v \<Rightarrow> nat \<Rightarrow> nat \<Rightarrow> nat \<Rightarrow> nat list" where
  "chain_hits hm cap cols key h p N =
     filter (\<lambda>v. v \<noteq> INDEXDEL \<and> at_cols 0 cols v = Inr key) (map (\<lambda>q. hm ! probe cap h q) [p..<N])"

text \<open>
  The shape of a slot array into which the rows \<open>0 .. n - 1\<close> have been placed one after the
  other, each in the first empty slot of its key's probe sequence, and from which nothing
  has been erased: a slot is empty or holds a row below \<open>n\<close>, no two slots hold the same
  row, and every row sits in its probe sequence behind occupied slots only, the rows of
  the same key among them being older.
\<close>

definition tidy :: "nat list \<Rightarrow> nat \<Rightarrow> (nat \<Rightarrow> 'v) \<Rightarrow> (nat \<Rightarrow> nat) \<Rightarrow> nat \<Rightarrow> bool" where
  "tidy hm cap key home n \<longleftrightarrow>
     (\<forall>p<cap. hm ! p = INDEXNUL \<or> hm ! p < n) \<and>
     (\<forall>p<cap. \<forall>q<cap. hm ! p = hm ! q \<longrightarrow> hm ! p = INDEXNUL \<or> p = q) \<and>
     (\<forall>i<n. \<exists>m<cap. hm ! probe cap (home i) m = i \<and>
         (\<forall>j<m. hm ! probe cap (home i) j \<noteq> INDEXNUL \<and>
                (key (hm ! probe cap (home i) j) = key i \<longrightarrow> hm ! probe cap (home i) j < i)))"

section \<open>Tables of claims C1 and C2: call sequences, invariants and concrete tables\<close>

text \<open>
  Row \<open>i\<close> as a caller reads it: \<^verbatim>\<open>at<K>(i)\<close> for every column \<open>K\<close>.
\<close>

definition row_of :: "('v, 'm) soa_scheme \<Rightarrow> nat \<Rightarrow> (error + 'v) list" where
  "row_of s i = map (\<lambda>K. at K s i) [0..<length (mydata s)]"

text \<open>
  A sequence of \<^verbatim>\<open>insert(key, items...)\<close> calls, stopped at the first one that reports
  failure; the result is what the last call reported, with the table.
\<close>

fun insert_all ::
  "'v env \<Rightarrow> ('v, 'm) htable_scheme \<Rightarrow> ('v \<times> 'v list) list \<Rightarrow>
     (error + bool \<times> ('v, 'm) htable_scheme) option" where
  "insert_all e s [] = Some (Inr (True, s))"
| "insert_all e s ((key, items) # rows) =
     (case insert_ht e s key items of
        None \<Rightarrow> None
      | Some (Inl x) \<Rightarrow> Some (Inl x)
      | Some (Inr (ok, s')) \<Rightarrow> if ok then insert_all e s' rows else Some (Inr (False, s')))"

text \<open>
  The indices of the rows whose key is \<open>k\<close>, in ascending order.
\<close>

definition rows_with :: "('v, 'm) soa_scheme \<Rightarrow> 'v \<Rightarrow> nat list" where
  "rows_with s k = filter (\<lambda>i. at 0 s i = Inr k) [0..<mysize s]"

text \<open>
  The cells of the table of the test program: a \<^verbatim>\<open>std::string\<close> key and an
  \<^verbatim>\<open>int\<close> payload. The hash function of \<open>env_fruit\<close> is the length of the string (any
  function will do: it makes all six-letter fruit collide), and \<open>fruit16\<close> is the table
  after \<^verbatim>\<open>reserve(0)\<close> on a default-constructed one.
\<close>

datatype cell = Str string | Num int

definition env_fruit :: "cell env" where
  "env_fruit = \<lparr> std_hash = (\<lambda>c. case c of Str w \<Rightarrow> length w | Num n \<Rightarrow> nat \<bar>n\<bar>),
                 sizeofs = [32, 4], malloc_ok = (\<lambda>bytes. True), junk = Num 0,
                 defaults = [Str [], Num 0], trivial_key = False \<rparr>"

definition fruit16 :: "cell htable" where
  "fruit16 = \<lparr> mysize = 0, mycapacity = 16, mydata = [replicate 16 (Num 0), replicate 16 (Num 0)],
       hashmap = replicate 35 INDEXNUL @ [0], hashcapacity = 35, hashcursor = SIZE_MAX \<rparr>"

definition fruit :: "(cell \<times> cell list) list" where
  "fruit = [(Str ''banana'', [Num 12]), (Str ''cherry'', [Num 7]),
            (Str ''banana'', [Num 42]), (Str ''banana'', [Num 9001])]"

text \<open>
  The slot at which the probe sequence of the key of row \<open>i\<close> starts.
\<close>

definition home_slot :: "'v env \<Rightarrow> ('v, 'm) htable_scheme \<Rightarrow> nat \<Rightarrow> nat" where
  "home_slot e s i = std_hash e (mydata s ! 0 ! i) mod hashcapacity s"

text \<open>
  The slot-reachability invariant on the slot array, for \<open>n\<close> live rows: a slot is empty, a
  tombstone or holds a live row; no two slots hold the same row; and every live row is held
  by a slot of the probe sequence of its key, with no empty slot before it.
\<close>

definition linked :: "nat list \<Rightarrow> nat \<Rightarrow> (nat \<Rightarrow> nat) \<Rightarrow> nat \<Rightarrow> bool" where
  "linked hm cap hom n \<longleftrightarrow>
     (\<forall>p<cap. hm ! p = INDEXNUL \<or> hm ! p = INDEXDEL \<or> hm ! p < n) \<and>
     (\<forall>p<cap. \<forall>q<cap. hm ! p = hm ! q \<longrightarrow> hm ! p = INDEXNUL \<or> hm ! p = INDEXDEL \<or> p = q) \<and>
     (\<forall>i<n. \<exists>m<cap. hm ! probe cap (hom i) m = i \<and>
         (\<forall>j<m. hm ! probe cap (hom i) j \<noteq> INDEXNUL))"

text \<open>
  A table in the state that \<^verbatim>\<open>htable::reserve\<close> leaves and \<^verbatim>\<open>insert\<close> and
  \<^verbatim>\<open>erase\<close> maintain: a well-formed column store of at most \<open>max_size\<close> rows, a row
  capacity below \<open>2 ^ 33\<close> with the slot count that belongs to it, and the
  slot-reachability invariant.
\<close>

definition sound :: "'v env \<Rightarrow> ('v, 'm) htable_scheme \<Rightarrow> bool" where
  "sound e s \<longleftrightarrow>
     soa_wf s \<and> mysize s \<le> max_size \<and> mydata s \<noteq> [] \<and> mycapacity s < 2 ^ 33 \<and>
     hashcapacity s = 2 * mycapacity s + 3 \<and> hashcapacity s \<le> length (hashmap s) \<and>
     linked (hashmap s) (hashcapacity s) (home_slot e s) (mysize s)"

text \<open>
  Some slot of the table is \<open>INDEXNUL\<close> (empty).
\<close>

definition has_empty :: "('v, 'm) htable_scheme \<Rightarrow> bool" where
  "has_empty s \<longleftrightarrow> INDEXNUL \<in> set (take (hashcapacity s) (hashmap s))"

text \<open>
  The rows with key \<open>k\<close> in probe order: the occupied slots of the probe sequence of \<open>k\<close>,
  once around the slot array, whose row has the key \<open>k\<close>.
\<close>

definition probe_rows :: "'v env \<Rightarrow> ('v, 'm) htable_scheme \<Rightarrow> 'v \<Rightarrow> nat list" where
  "probe_rows e s k =
     filter (\<lambda>v. v \<noteq> INDEXNUL \<and> v \<noteq> INDEXDEL \<and> at 0 s v = Inr k)
       (map (\<lambda>q. hashmap s ! probe (hashcapacity s) (std_hash e k mod hashcapacity s) q)
          [0..<hashcapacity s])"

text \<open>
  A sequence of \<^verbatim>\<open>insert(key, items...)\<close> calls, each followed by \<^verbatim>\<open>erase(key)\<close>.
\<close>

fun churn_all ::
  "'v env \<Rightarrow> ('v, 'm) htable_scheme \<Rightarrow> ('v \<times> 'v list) list \<Rightarrow>
     (error + ('v, 'm) htable_scheme) option" where
  "churn_all e s [] = Some (Inr s)"
| "churn_all e s ((key, items) # rows) =
     (case insert_ht e s key items of
        None \<Rightarrow> None
      | Some (Inl x) \<Rightarrow> Some (Inl x)
      | Some (Inr (ok, s1)) \<Rightarrow>
          (case erase e s1 key of
             None \<Rightarrow> None
           | Some (Inl x) \<Rightarrow> Some (Inl x)
           | Some (Inr (erased, s2)) \<Rightarrow> churn_all e s2 rows))"

text \<open>
  The table \<open>table16\<close> after inserting and erasing the keys \<open>0 .. j - 1\<close> one after the
  other (\<open>worn_rows j\<close>): no row is left, and the slots \<open>0 .. j - 1\<close> are tombstones. The
  cell of row 0 still holds the last key. \<open>worn_filled j\<close> is the table between the insert
  and the erase of key \<open>j\<close>.
\<close>

definition worn_at :: "nat \<Rightarrow> nat htable" where
  "worn_at j =
     \<lparr> mysize = 0, mycapacity = 16, mydata = [(replicate 16 0)[0 := j - 1], replicate 16 0],
       hashmap = replicate j INDEXDEL @ replicate (35 - j) INDEXNUL @ [0], hashcapacity = 35,
       hashcursor = (if j = 0 then SIZE_MAX else j - 1) \<rparr>"

definition worn_filled :: "nat \<Rightarrow> nat htable" where
  "worn_filled j =
     (worn_at j)\<lparr> mysize := 1, mydata := [(replicate 16 0)[0 := j], replicate 16 0],
                  hashmap := (hashmap (worn_at j))[j := 0] \<rparr>"

definition worn_rows :: "nat \<Rightarrow> (nat \<times> nat list) list" where
  "worn_rows n = map (\<lambda>k. (k, [0])) [0..<n]"

text \<open>
  The table \<open>worn_at 34\<close> after inserting the rows \<open>(34, 12)\<close>, \<open>(34, 42)\<close> and
  \<open>(34, 9001)\<close>: the first one takes the last empty slot, 34, and the other two take the
  tombstones 1 and 3, so that no slot is empty.
\<close>

definition worn3 :: "nat htable" where
  "worn3 = \<lparr> mysize = 3, mycapacity = 16,
       mydata = [(replicate 16 0)[0 := 34, 1 := 34, 2 := 34],
                 (replicate 16 0)[0 := 12, 1 := 42, 2 := 9001]],
       hashmap = (replicate 34 INDEXDEL @ [INDEXNUL, 0])[34 := 0, 1 := 1, 3 := 2],
       hashcapacity = 35, hashcursor = 33 \<rparr>"

text \<open>
  A table that \<^verbatim>\<open>htable::reserve\<close> has allocated and that has only been inserted into
  since: its slot array is \<open>tidy\<close> for the keys of its rows.
\<close>

definition built :: "'v env \<Rightarrow> ('v, 'm) htable_scheme \<Rightarrow> bool" where
  "built e s \<longleftrightarrow>
     soa_wf s \<and> mysize s \<le> max_size \<and> mydata s \<noteq> [] \<and> mycapacity s mod 16 = 0 \<and> 0 < mycapacity s \<and>
     mycapacity s < 2 ^ 33 \<and> hashcapacity s = 2 * mycapacity s + 3 \<and>
     hashcapacity s \<le> length (hashmap s) \<and>
     tidy (hashmap s) (hashcapacity s) (\<lambda>i. mydata s ! 0 ! i)
       (\<lambda>i. std_hash e (mydata s ! 0 ! i) mod hashcapacity s) (mysize s)"

text \<open>
  What \<^verbatim>\<open>insert\<close> does to a table with room when the probe loop stops at \<open>slot\<close>: the row
  is constructed at index \<open>mysize\<close> and the slot receives that index.
\<close>

definition placed ::
  "('v, 'm) htable_scheme \<Rightarrow> 'v list \<Rightarrow> nat \<Rightarrow> ('v, 'm) htable_scheme" where
  "placed s row slot =
     s\<lparr> mydata := map2 (\<lambda>v c. c[mysize s := v]) row (mydata s), mysize := Suc (mysize s),
        hashmap := (hashmap s)[slot := mysize s] \<rparr>"

text \<open>
  The table \<open>worn_at 34\<close> after inserting the row \<open>(34, 12)\<close>, which takes the last empty
  slot: one row, 34 tombstones and no empty slot.
\<close>

definition worn1 :: "nat htable" where
  "worn1 = \<lparr> mysize = 1, mycapacity = 16,
       mydata = [(replicate 16 0)[0 := 34], (replicate 16 0)[0 := 12]],
       hashmap = (replicate 34 INDEXDEL @ [INDEXNUL, 0])[34 := 0],
       hashcapacity = 35, hashcursor = 33 \<rparr>"

text \<open>
  The table of the test program after its first call, the insert of the row banana 12 into
  the default-constructed table: row capacity 16, and the key in slot 6.
\<close>

definition banana1 :: "cell htable" where
  "banana1 = \<lparr> mysize = 1, mycapacity = 16,
       mydata = [(replicate 16 (Num 0))[0 := Str ''banana''], (replicate 16 (Num 0))[0 := Num 12]],
       hashmap = (replicate 35 INDEXNUL @ [0])[6 := 0],
       hashcapacity = 35, hashcursor = SIZE_MAX \<rparr>"

section \<open>Properties\<close>

subsection \<open>Columns\<close>

lemma each_col_map:
  "(\<And>c. c \<in> set cols \<Longrightarrow> f c = Inr (g c)) \<Longrightarrow> each_col f cols = Inr (map g cols)"
  by (induction cols) auto

lemma each_col_arg_map2:
  "length vs = length cols \<Longrightarrow> (\<And>v c. (v, c) \<in> set (zip vs cols) \<Longrightarrow> f v c = Inr (g v c))
   \<Longrightarrow> each_col_arg f vs cols = Inr (map2 g vs cols)"
proof (induction f vs cols rule: each_col_arg.induct)
  case (3 f v vs col cols)
  then show ?case by auto
qed auto

lemma col_construct_range_ok:
  "i \<le> fin \<Longrightarrow> fin \<le> length col \<Longrightarrow>
   col_construct_range i fin v col = Inr (take i col @ replicate (fin - i) v @ drop fin col)"
proof (induction i fin v col rule: col_construct_range.induct)
  case (1 i fin v col)
  show ?case
  proof (cases "i < fin")
    case True
    have upd: "take (Suc i) (col[i := v]) @ replicate (fin - Suc i) v @ drop fin (col[i := v])
             = take i col @ replicate (fin - i) v @ drop fin col"
    proof -
      from True have r: "replicate (fin - i) v = v # replicate (fin - Suc i) v"
        by (metis Suc_diff_Suc replicate_Suc)
      from True "1.prems" show ?thesis
        by (simp add: take_Suc_conv_app_nth r)
    qed
    from True "1.prems" have "col_construct i v col = Inr (col[i := v])"
      by (simp add: col_construct_def)
    with True "1.prems" "1.IH"[of "col[i := v]"] upd show ?thesis
      by (subst col_construct_range.simps) simp
  next
    case False
    with "1.prems" show ?thesis by (subst col_construct_range.simps) simp
  qed
qed

lemma col_destruct_range_ok:
  "fin \<le> length col \<Longrightarrow> col_destruct_range i fin col = Inr col"
proof (induction i fin col rule: col_destruct_range.induct)
  case (1 i fin col)
  then show ?case by (subst col_destruct_range.simps) (simp add: col_destruct_def)
qed

lemma soa_empty_2: "soa_empty 2 = \<lparr> mysize = 0, mycapacity = 0, mydata = [[], []] \<rparr>"
  by (simp add: soa_empty_def numeral_2_eq_2)

lemma reserve_empty_2:
  "reserve env_nat (soa_empty 2) 3 =
     Inr (True, \<lparr> mysize = 0, mycapacity = 16, mydata = [replicate 16 0, replicate 16 0] \<rparr>)"
  by (simp add: soa_empty_2 reserve_def round16_def wrap64_def env_nat_def divy_buffer_def
        with_cols_def col_divy_def)

subsection \<open>Claim C4: the size after \<^verbatim>\<open>resize\<close>\<close>

text \<open>
  C4 says that a successful \<^verbatim>\<open>resize(n, fill...)\<close> leaves the container with exactly
  \<open>n\<close> rows, as \<^verbatim>\<open>resize(n)\<close> does. On an empty two-column container,
  \<^verbatim>\<open>resize(3, 7, 8)\<close> reports success, allocates 16 row slots and constructs three rows,
  but the size stays 0; \<^verbatim>\<open>resize(3)\<close> on the same container ends with size 3.
\<close>

theorem resize_initvals_size:
  "outcome (resize_initvals env_nat (soa_empty 2) 3 [7, 8]) = Inr (True, 0, 16) \<and>
   outcome (resize env_nat (soa_empty 2) 3) = Inr (True, 3, 16)"
proof -
  have e: "mysize (soa_empty 2 :: nat soa) = 0" "mycapacity (soa_empty 2 :: nat soa) = 0"
    by (simp_all add: soa_empty_def)
  have d: "defaults env_nat = [0, 0]" by (simp add: env_nat_def)
  show ?thesis
    by (simp add: resize_initvals_def resize_def e d reserve_empty_2 construct_range_def
          with_cols_def col_construct_range_ok outcome_def size_soa_def capacity_def)
qed

subsection \<open>Claim C5: capacity is a multiple of 16 and bounds the size\<close>

text \<open>
  C5 says that \<open>size \<le> capacity\<close> holds in every state reachable through the public
  operations, \<^verbatim>\<open>deserialize\<close> included. \<^verbatim>\<open>deserialize(n)\<close> does not look at the result of
  \<^verbatim>\<open>reserve\<close> and sets the size to \<open>n\<close>: on an empty container whose allocation fails,
  \<^verbatim>\<open>deserialize(5)\<close> ends with size 5 and capacity 0; and with an allocator that never
  fails, \<^verbatim>\<open>deserialize(SIZE_MAX)\<close> rounds the request up to 0 modulo \<open>2^64\<close>, reserves 16
  row slots and ends with size \<open>2^64 - 1\<close>.
\<close>

theorem deserialize_size_exceeds_capacity:
  "sizes_after (deserialize env_nomem (soa_empty 2) 5) = Inr (5, 0) \<and>
   sizes_after (deserialize env_nat (soa_empty 2) 18446744073709551615)
     = Inr (18446744073709551615, 16)"
  by (simp add: deserialize_def soa_empty_2 reserve_def round16_def wrap64_def env_nat_def
        env_nomem_def divy_buffer_def with_cols_def col_divy_def size_soa_def capacity_def
        sizes_after_def)

subsection \<open>One step of the probe loops\<close>

lemmas nums =
  wrap64_def dec64_def u32_def INDEXNUL_def INDEXDEL_def UINT_MAX_def SIZE_MAX_def max_size_def

lemma open_slot_hit:
  "h < length hm \<Longrightarrow> hm ! h = INDEXNUL \<or> hm ! h = INDEXDEL \<Longrightarrow> open_slot hm cap h = Some (Inr h)"
  by (subst open_slot.simps) auto

lemma open_slot_step:
  "h < length hm \<Longrightarrow> hm ! h \<noteq> INDEXNUL \<Longrightarrow> hm ! h \<noteq> INDEXDEL \<Longrightarrow> 0 < cap \<Longrightarrow>
   open_slot hm cap h = open_slot hm cap (wrap64 (h + 2) mod cap)"
  by (subst open_slot.simps) (simp add: hash_inc_def)

lemma locate_slot_hit:
  "h < length hm \<Longrightarrow> hm ! h = target \<Longrightarrow> locate_slot hm cap target h = Some (Inr (Some h))"
  by (subst locate_slot.simps) auto

lemma locate_slot_nul:
  "h < length hm \<Longrightarrow> hm ! h \<noteq> target \<Longrightarrow> hm ! h = INDEXNUL \<Longrightarrow>
   locate_slot hm cap target h = Some (Inr None)"
  by (subst locate_slot.simps) auto

lemma locate_slot_step:
  "h < length hm \<Longrightarrow> hm ! h \<noteq> target \<Longrightarrow> hm ! h \<noteq> INDEXNUL \<Longrightarrow> 0 < cap \<Longrightarrow>
   locate_slot hm cap target h = locate_slot hm cap target (wrap64 (h + 2) mod cap)"
  by (subst locate_slot.simps) (simp add: hash_inc_def)

lemma find_loop_nul:
  "c < length hm \<Longrightarrow> hm ! c = INDEXNUL \<Longrightarrow> find_loop hm cap cols key c = Some (Inr (c, SIZE_MAX))"
  by (subst find_loop.simps) auto

lemma find_loop_hit:
  "c < length hm \<Longrightarrow> hm ! c \<noteq> INDEXNUL \<Longrightarrow> hm ! c \<noteq> INDEXDEL \<Longrightarrow>
   at_cols 0 cols (hm ! c) = Inr key \<Longrightarrow> find_loop hm cap cols key c = Some (Inr (c, hm ! c))"
  by (subst find_loop.simps) auto

lemma find_loop_del:
  "c < length hm \<Longrightarrow> hm ! c = INDEXDEL \<Longrightarrow> 0 < cap \<Longrightarrow>
   find_loop hm cap cols key c = find_loop hm cap cols key (wrap64 (c + 2) mod cap)"
  by (subst find_loop.simps) (simp add: hash_inc_def INDEXDEL_def INDEXNUL_def UINT_MAX_def)

lemma find_loop_miss:
  "c < length hm \<Longrightarrow> hm ! c \<noteq> INDEXNUL \<Longrightarrow> hm ! c \<noteq> INDEXDEL \<Longrightarrow>
   at_cols 0 cols (hm ! c) = Inr k \<Longrightarrow> k \<noteq> key \<Longrightarrow> 0 < cap \<Longrightarrow>
   find_loop hm cap cols key c = find_loop hm cap cols key (wrap64 (c + 2) mod cap)"
  by (subst find_loop.simps) (simp add: hash_inc_def)

subsection \<open>The concrete tables\<close>

lemma htable_empty_2:
  "htable_empty 2 = \<lparr> mysize = 0, mycapacity = 0, mydata = [[], []],
       hashmap = [], hashcapacity = 0, hashcursor = SIZE_MAX \<rparr>"
  by (simp add: htable_empty_def numeral_2_eq_2)

lemma reserve_ht_empty_2:
  "reserve_ht env_nat (htable_empty 2) 0 = Some (Inr (True, table16))"
  by (simp add: htable_empty_2 reserve_ht_def Let_def round16_def env_nat_def divy_buffer_def
        with_cols_def col_divy_def rehash_def memset_slots_def table16_def nums)

lemma insert_40: "insert_ht env_nat (htable_empty 2) 40 [12] = Some (Inr (True, table_40))"
proof -
  have m: "mysize (htable_empty 2 :: nat htable) = 0" "mycapacity (htable_empty 2 :: nat htable) = 0"
    by (simp_all add: htable_empty_def)
  have h: "std_hash env_nat = id" by (simp add: env_nat_def)
  show ?thesis
    by (simp add: insert_ht_def m reserve_ht_empty_2 nums)
       (simp add: table16_def h open_slot_hit nth_append push_back_def base_push_back_def
          with_cols_def col_construct_def table_40_def nums)
qed

lemma insert_0: "insert_ht env_nat (htable_empty 2) 0 [10] = Some (Inr (True, table_0))"
proof -
  have m: "mysize (htable_empty 2 :: nat htable) = 0" "mycapacity (htable_empty 2 :: nat htable) = 0"
    by (simp_all add: htable_empty_def)
  have h: "std_hash env_nat = id" by (simp add: env_nat_def)
  show ?thesis
    by (simp add: insert_ht_def m reserve_ht_empty_2 nums)
       (simp add: table16_def h open_slot_hit nth_append push_back_def base_push_back_def
          with_cols_def col_construct_def table_0_def nums)
qed

lemma insert_0_1: "insert_ht env_nat table_0 1 [11] = Some (Inr (True, table_0_1))"
proof -
  have h: "std_hash env_nat = id" by (simp add: env_nat_def)
  show ?thesis
    by (simp add: insert_ht_def table_0_def h open_slot_hit nth_append push_back_def
          base_push_back_def with_cols_def col_construct_def table_0_1_def nums)
qed

subsection \<open>Claim C3: \<^verbatim>\<open>htable::swap_entries\<close>\<close>

text \<open>
  C3 says that \<^verbatim>\<open>swap_entries(a, b)\<close> repairs the two slots that referred to rows \<open>a\<close> and
  \<open>b\<close> and never writes outside the slot array. In the table built by \<^verbatim>\<open>insert(0, 10)\<close>
  and \<^verbatim>\<open>insert(1, 11)\<close>, slot 0 refers to row 0 and slot 1 to row 1.
  \<^verbatim>\<open>swap_entries(0, 1)\<close> exchanges the rows and then looks for the slot holding \<open>first\<close>
  along the probe sequence of the key that is now in row \<open>first\<close>, which is the other
  row's key: the walk from slot 1 meets the empty slot 3, the walk for \<open>second\<close> from
  slot 0 meets the empty slot 2, both positions stay \<open>SIZE_MAX\<close>, and the final store
  \<^verbatim>\<open>hashmap[first_hashpos] = second\<close> is outside the array.
\<close>

theorem swap_entries_writes_outside:
  "insert_ht env_nat (htable_empty 2) 0 [10] = Some (Inr (True, table_0)) \<and>
   insert_ht env_nat table_0 1 [11] = Some (Inr (True, table_0_1)) \<and>
   swap_entries_ht env_nat table_0_1 0 1 = Some (Inl OutOfBounds)"
proof -
  have h: "std_hash env_nat = id" by (simp add: env_nat_def)
  have "swap_entries_ht env_nat table_0_1 0 1 = Some (Inl OutOfBounds)"
    by (simp add: swap_entries_ht_def swap_entries_def base_swap_entries_def with_cols_def
        col_swap_def table_0_1_def at_def at_cols_def h locate_slot_step locate_slot_nul nth_append
        store_slot_def hashpos_def nums)
  with insert_0 insert_0_1 show ?thesis by simp
qed

subsection \<open>Claim C6: a failed allocation leaves the container as it was\<close>

text \<open>
  C6 says that when the allocation fails, the operation returns false and size, capacity,
  hash-slot array and columns are as before the call. \<^verbatim>\<open>htable::reserve\<close> assigns
  \<open>hashcapacity\<close> before it allocates. In the table holding the row \<open>(40, 12)\<close>
  (capacity 16, 35 slots, key 40 in slot 5), \<^verbatim>\<open>reserve(17)\<close> with a failing allocator
  returns false and leaves \<open>hashcapacity = 67\<close> over the old array of 35 slots; the next
  \<^verbatim>\<open>find(40)\<close> starts at slot \<open>40 mod 67 = 40\<close>, outside the array, where before the call
  it found row 0.
\<close>

theorem reserve_ht_failure_changes_hashcapacity:
  "insert_ht env_nat (htable_empty 2) 40 [12] = Some (Inr (True, table_40)) \<and>
   find_ht env_nat table_40 40 True = Some (Inr (0, table_40\<lparr> hashcursor := 5 \<rparr>)) \<and>
   reserve_ht env_nomem table_40 17 = Some (Inr (False, table_40\<lparr> hashcapacity := 67 \<rparr>)) \<and>
   find_ht env_nat (table_40\<lparr> hashcapacity := 67 \<rparr>) 40 True = Some (Inl OutOfBounds)"
proof -
  have a: "find_ht env_nat table_40 40 True = Some (Inr (0, table_40\<lparr> hashcursor := 5 \<rparr>))"
    by (simp add: find_ht_def table_40_def env_nat_def find_loop_hit at_cols_def nth_append nums)
  have b: "reserve_ht env_nomem table_40 17 = Some (Inr (False, table_40\<lparr> hashcapacity := 67 \<rparr>))"
    by (simp add: reserve_ht_def Let_def round16_def env_nomem_def table_40_def nums)
  have c: "find_ht env_nat (table_40\<lparr> hashcapacity := 67 \<rparr>) 40 True = Some (Inl OutOfBounds)"
    by (simp add: find_ht_def table_40_def env_nat_def nums) (subst find_loop.simps, simp)
  from insert_40 a b c show ?thesis by simp
qed

subsection \<open>Claim C10: \<^verbatim>\<open>find\<close> on a table without rows\<close>

text \<open>
  C10: on a table whose size is 0, each of the three \<^verbatim>\<open>find\<close> overloads returns
  \<open>SIZE_MAX\<close> for every key and every restart value, the table and the cursor (the table's
  or the caller's) are unchanged, and no remainder modulo \<open>hashcapacity\<close> is computed: the
  result is a value and not the error \<open>DivByZero\<close>, whatever \<open>hashcapacity\<close> is, 0 included.
\<close>

theorem find_on_empty_table:
  "mysize s = 0 \<Longrightarrow>
   find_ht e s key restart = Some (Inr (SIZE_MAX, s)) \<and>
   find_const e s key = Some (Inr SIZE_MAX) \<and>
   find_hashc e s key restart hashc = Some (Inr (SIZE_MAX, hashc))"
  by (simp add: find_ht_def find_const_def find_hashc_def)

theorem find_on_empty_table_witness:
  "mysize (htable_empty 2 :: nat htable) = 0 \<and>
   hashcapacity (htable_empty 2 :: nat htable) = 0 \<and>
   find_ht env_nat (htable_empty 2) 7 True = Some (Inr (SIZE_MAX, htable_empty 2)) \<and>
   find_ht env_nat (htable_empty 2) 7 False = Some (Inr (SIZE_MAX, htable_empty 2)) \<and>
   find_const env_nat (htable_empty 2) 7 = Some (Inr SIZE_MAX) \<and>
   find_hashc env_nat (htable_empty 2) 7 True 3 = Some (Inr (SIZE_MAX, 3))"
proof -
  have m: "mysize (htable_empty 2 :: nat htable) = 0" by (simp add: htable_empty_def)
  have c: "hashcapacity (htable_empty 2 :: nat htable) = 0" by (simp add: htable_empty_def)
  from m c
    find_on_empty_table [OF m, of env_nat 7 True 3]
    find_on_empty_table [OF m, of env_nat 7 False 3]
  show ?thesis by simp
qed

subsection \<open>Claim C9: \<^verbatim>\<open>erase_shift\<close> and \<^verbatim>\<open>erase_swap\<close>\<close>

lemma erase_shift_ok:
  assumes "soa_wf s" "loc < mysize s" "mysize s < mycapacity s"
  shows "erase_shift s loc =
         Inr (s\<lparr> mydata := map (\<lambda>col. take loc col @ take (mysize s - loc) (drop (loc + 1) col)
                                     @ drop (mysize s) col) (mydata s),
                  mysize := mysize s - 1 \<rparr>)"
proof -
  have len: "\<And>c. c \<in> set (mydata s) \<Longrightarrow> length c = mycapacity s"
    using assms(1) by (simp add: soa_wf_def list_all_iff)
  have "each_col (\<lambda>col. case col_destruct loc col of Inl x \<Rightarrow> Inl x
             | Inr col' \<Rightarrow> col_memmove loc (loc + 1) (mysize s - loc) col') (mydata s)
        = Inr (map (\<lambda>col. take loc col @ take (mysize s - loc) (drop (loc + 1) col)
                                     @ drop (mysize s) col) (mydata s))"
    using assms(2,3) by (intro each_col_map) (simp add: len col_destruct_def col_memmove_def)
  with assms(2) show ?thesis
    by (simp add: erase_shift_def base_erase_shift_def with_cols_def)
qed

lemma erase_swap_ok:
  assumes "soa_wf s" "loc < mysize s"
  shows "erase_swap s loc =
         Inr (s\<lparr> mydata := map (\<lambda>col. col[loc := col ! (mysize s - 1), mysize s - 1 := col ! loc])
                              (mydata s),
                  mysize := mysize s - 1 \<rparr>)"
proof -
  have len: "\<And>c. c \<in> set (mydata s) \<Longrightarrow> length c = mycapacity s"
    using assms(1) by (simp add: soa_wf_def list_all_iff)
  have le: "mysize s \<le> mycapacity s" using assms(1) by (simp add: soa_wf_def)
  have "each_col (\<lambda>col. case col_swap loc (mysize s - 1) col of Inl x \<Rightarrow> Inl x
             | Inr col' \<Rightarrow> col_destruct (mysize s - 1) col') (mydata s)
        = Inr (map (\<lambda>col. col[loc := col ! (mysize s - 1), mysize s - 1 := col ! loc]) (mydata s))"
    using assms(2) le by (intro each_col_map) (simp add: len col_destruct_def col_swap_def)
  with assms(2) show ?thesis
    by (simp add: erase_swap_def base_erase_swap_def with_cols_def)
qed

lemma erase_shift_full:
  assumes "soa_wf s" "loc < mysize s" "mysize s = mycapacity s" "mydata s \<noteq> []"
  shows "erase_shift s loc = Inl OutOfBounds"
proof -
  obtain c cs where cs: "mydata s = c # cs" using assms(4) by (cases "mydata s") auto
  have "length c = mycapacity s" using assms(1) cs by (simp add: soa_wf_def)
  with assms(2,3) cs show ?thesis
    by (simp add: erase_shift_def base_erase_shift_def with_cols_def col_destruct_def col_memmove_def)
qed

text \<open>
  C9, as amended. For a well-formed store with \<open>n\<close> rows and \<open>loc < n\<close>:
  when \<open>n\<close> is below the capacity, \<^verbatim>\<open>erase_shift(loc)\<close> leaves \<open>n - 1\<close> rows, and every
  column holds its former live cells without the one at \<open>loc\<close>, in their former order (the
  row formerly at \<open>i > loc\<close> is at \<open>i - 1\<close>). \<^verbatim>\<open>erase_swap(loc)\<close> leaves \<open>n - 1\<close> rows,
  with the formerly last row at \<open>loc\<close> and every other row in place; when \<open>loc + 2 < n\<close> the
  formerly last row is thus in front of the row formerly at \<open>loc + 1\<close>, which has not moved:
  the order of these two rows is reversed. (The claim said so for every \<open>loc < n - 1\<close>; for
  \<open>loc = n - 2\<close> the order of the remaining rows is unchanged. With \<open>n\<close> equal to the
  capacity, \<^verbatim>\<open>erase_shift\<close> moves \<open>n - loc\<close> cells from \<open>loc + 1\<close> on and reads one cell
  past each column, see \<open>erase_shift_full\<close>; the theorem says nothing about that case.)
\<close>

theorem erase_shift_keeps_order:
  assumes "soa_wf s" "loc < mysize s"
  shows "(mysize s < mycapacity s \<longrightarrow>
           (\<exists>s'. erase_shift s loc = Inr s' \<and> mysize s' = mysize s - 1 \<and>
                 live s' = map (\<lambda>col. take loc col @ drop (Suc loc) col) (live s))) \<and>
         (\<exists>s'. erase_swap s loc = Inr s' \<and> mysize s' = mysize s - 1 \<and>
               live s' = map (\<lambda>col. (butlast col)[loc := last col]) (live s) \<and>
               (loc + 2 < mysize s \<longrightarrow>
                  (\<forall>k < length (mydata s).
                      live s' ! k ! loc = live s ! k ! (mysize s - 1) \<and>
                      live s' ! k ! Suc loc = live s ! k ! Suc loc)))"
proof (intro conjI impI)
  assume lt: "mysize s < mycapacity s"
  have len: "\<And>c. c \<in> set (mydata s) \<Longrightarrow> length c = mycapacity s"
    using assms(1) by (simp add: soa_wf_def list_all_iff)
  have "\<And>c. c \<in> set (mydata s) \<Longrightarrow>
          take (mysize s - 1) (take loc c @ take (mysize s - loc) (drop (loc + 1) c) @ drop (mysize s) c)
          = take loc (take (mysize s) c) @ drop (Suc loc) (take (mysize s) c)"
  proof -
    fix c assume "c \<in> set (mydata s)"
    then have l: "length c = mycapacity s" by (rule len)
    have a: "min (mysize s - 1) loc = loc" "mysize s - 1 - loc = mysize s - Suc loc"
      "min (mysize s - Suc loc) (mysize s - loc) = mysize s - Suc loc"
      using assms(2) by auto
    have "take (mysize s - 1) (take loc c @ take (mysize s - loc) (drop (loc + 1) c) @ drop (mysize s) c)
        = take loc c @ take (mysize s - Suc loc) (drop (Suc loc) c)"
      using assms(2) lt l by (simp add: a)
    moreover have "take loc (take (mysize s) c) @ drop (Suc loc) (take (mysize s) c)
        = take loc c @ take (mysize s - Suc loc) (drop (Suc loc) c)"
      using assms(2) by (simp add: drop_take min_def)
    ultimately show "take (mysize s - 1) (take loc c @ take (mysize s - loc) (drop (loc + 1) c) @ drop (mysize s) c)
          = take loc (take (mysize s) c) @ drop (Suc loc) (take (mysize s) c)"
      by simp
  qed
  then show "\<exists>s'. erase_shift s loc = Inr s' \<and> mysize s' = mysize s - 1 \<and>
                 live s' = map (\<lambda>col. take loc col @ drop (Suc loc) col) (live s)"
    by (simp add: erase_shift_ok [OF assms lt] live_def)
next
  have len: "\<And>c. c \<in> set (mydata s) \<Longrightarrow> length c = mycapacity s"
    using assms(1) by (simp add: soa_wf_def list_all_iff)
  have le: "mysize s \<le> mycapacity s" using assms(1) by (simp add: soa_wf_def)
  have cell: "\<And>c. c \<in> set (mydata s) \<Longrightarrow>
          take (mysize s - 1) (c[loc := c ! (mysize s - 1)])
          = (butlast (take (mysize s) c))[loc := last (take (mysize s) c)]"
  proof -
    fix c assume "c \<in> set (mydata s)"
    then have l: "length c = mycapacity s" by (rule len)
    have ne: "take (mysize s) c \<noteq> []"
      using assms(2) le l by auto
    have "last (take (mysize s) c) = c ! (mysize s - 1)"
      using assms(2) le l by (simp add: last_conv_nth [OF ne] min_def)
    moreover have "butlast (take (mysize s) c) = take (mysize s - 1) c"
      using assms(2) le l by (simp add: butlast_take)
    ultimately show "take (mysize s - 1) (c[loc := c ! (mysize s - 1)])
          = (butlast (take (mysize s) c))[loc := last (take (mysize s) c)]"
      using le l by (simp add: take_update_swap list_update_beyond)
  qed
  define s' where "s' = s\<lparr> mydata := map (\<lambda>col. col[loc := col ! (mysize s - 1), mysize s - 1 := col ! loc])
                              (mydata s), mysize := mysize s - 1 \<rparr>"
  have es: "erase_swap s loc = Inr s'"
    by (simp add: erase_swap_ok [OF assms] s'_def)
  have sz: "mysize s' = mysize s - 1"
    by (simp add: s'_def)
  have lv: "live s' = map (\<lambda>col. (butlast col)[loc := last col]) (live s)"
    by (simp add: live_def s'_def cell del: One_nat_def)
  have pos: "live s' ! k ! loc = live s ! k ! (mysize s - 1) \<and>
             live s' ! k ! Suc loc = live s ! k ! Suc loc"
    if k: "k < length (mydata s)" and far: "loc + 2 < mysize s" for k
  proof -
    have l: "length (mydata s ! k) = mycapacity s"
      using k by (simp add: len)
    have "live s ! k = take (mysize s) (mydata s ! k)"
      using k by (simp add: live_def)
    moreover have "live s' ! k = take (mysize s - 1)
         ((mydata s ! k)[loc := mydata s ! k ! (mysize s - 1), mysize s - 1 := mydata s ! k ! loc])"
      using k by (simp add: live_def s'_def)
    ultimately show ?thesis
      using far le l by simp
  qed
  from es sz lv pos
  show "\<exists>s'. erase_swap s loc = Inr s' \<and> mysize s' = mysize s - 1 \<and>
               live s' = map (\<lambda>col. (butlast col)[loc := last col]) (live s) \<and>
               (loc + 2 < mysize s \<longrightarrow>
                  (\<forall>k < length (mydata s).
                      live s' ! k ! loc = live s ! k ! (mysize s - 1) \<and>
                      live s' ! k ! Suc loc = live s ! k ! Suc loc))"
    by blast
qed

theorem erase_shift_keeps_order_witness:
  "soa_wf rows_10_20_30 \<and> 0 < mysize rows_10_20_30 \<and>
   mysize rows_10_20_30 < mycapacity rows_10_20_30 \<and>
   (\<exists>s'. erase_shift rows_10_20_30 0 = Inr s' \<and> mysize s' = 2 \<and> live s' = [[20, 30]]) \<and>
   (\<exists>s'. erase_swap rows_10_20_30 0 = Inr s' \<and> mysize s' = 2 \<and> live s' = [[30, 20]])"
proof -
  have wf: "soa_wf rows_10_20_30"
    by (simp add: soa_wf_def rows_10_20_30_def)
  have lt: "0 < mysize rows_10_20_30"
    by (simp add: rows_10_20_30_def)
  have lv: "live rows_10_20_30 = [[10, 20, 30]]"
    by (simp add: live_def rows_10_20_30_def)
  have sz: "mysize rows_10_20_30 = 3" "mycapacity rows_10_20_30 = 16"
    by (simp_all add: rows_10_20_30_def)
  from erase_shift_keeps_order [OF wf lt] have
    "(\<exists>s'. erase_shift rows_10_20_30 0 = Inr s' \<and> mysize s' = 2 \<and> live s' = [[20, 30]]) \<and>
     (\<exists>s'. erase_swap rows_10_20_30 0 = Inr s' \<and> mysize s' = 2 \<and> live s' = [[30, 20]])"
    by (simp add: lv sz) blast
  with wf show ?thesis
    by (simp add: sz)
qed

text \<open>
  C9 as stated fails at \<open>n = 3\<close>, \<open>loc = 1 < n - 1\<close>: \<^verbatim>\<open>erase_swap(1)\<close> on the rows 10, 20, 30
  leaves 10, 30, the remaining rows in their original order, exactly what
  \<^verbatim>\<open>erase_shift(1)\<close> leaves.
\<close>

theorem erase_swap_keeps_order_counterexample:
  "(1::nat) < mysize rows_10_20_30 - 1 \<and>
   map_sum id live (erase_swap rows_10_20_30 1) = Inr [[10, 30]] \<and>
   map_sum id live (erase_shift rows_10_20_30 1) = Inr [[10, 30]]"
proof -
  have wf: "soa_wf rows_10_20_30"
    by (simp add: soa_wf_def rows_10_20_30_def)
  have sz: "mysize rows_10_20_30 = 3" "mycapacity rows_10_20_30 = 16"
    by (simp_all add: rows_10_20_30_def)
  have d: "mydata rows_10_20_30 = [[10, 20, 30] @ replicate 13 0]"
    by (simp add: rows_10_20_30_def)
  show ?thesis
    by (simp add: erase_swap_ok [OF wf] erase_shift_ok [OF wf] sz live_def d)
qed

subsection \<open>Claim C8: \<^verbatim>\<open>serialize\<close> followed by \<^verbatim>\<open>deserialize\<close>\<close>

lemma round16_props:
  assumes "n + 15 < 2 ^ 64"
  shows "n \<le> round16 n" "round16 n < n + 16" "round16 n mod 16 = 0"
proof -
  have "n mod 16 \<noteq> 0 \<Longrightarrow> n + (16 - n mod 16) < 2 ^ 64"
    using assms by simp
  then have r: "round16 n = (if n mod 16 \<noteq> 0 then n + (16 - n mod 16) else n)"
    by (simp add: round16_def wrap64_def)
  have m: "n mod 16 < 16" by simp
  from m show "n \<le> round16 n" unfolding r by (cases "n mod 16 = 0") auto
  from m show "round16 n < n + 16" unfolding r by (cases "n mod 16 = 0") auto
  show "round16 n mod 16 = 0" unfolding r by presburger
qed

lemma fill_cols_concat:
  "length xs = length ys \<Longrightarrow> (\<And>i. i < length ys \<Longrightarrow> length (xs ! i) = length (ys ! i)) \<Longrightarrow>
   fill_cols (concat xs) ys = xs"
proof (induction ys arbitrary: xs)
  case Nil
  then show ?case by simp
next
  case (Cons y ys)
  then obtain x xs' where xs: "xs = x # xs'" by (cases xs) auto
  from Cons.prems(2) [of 0] xs have l: "length x = length y" by simp
  have "\<And>i. i < length ys \<Longrightarrow> length (xs' ! i) = length (ys ! i)"
    using Cons.prems(2) xs by fastforce
  with Cons.IH [of xs'] Cons.prems(1) xs have "fill_cols (concat xs') ys = xs'" by simp
  with l xs show ?case by simp
qed

lemma serialize_ok:
  assumes wf: "soa_wf s" and pos: "0 < mysize s" and nowrap: "mysize s + 15 < 2 ^ 64"
    and alloc: "\<forall>bytes. malloc_ok e bytes"
  shows "\<exists>s1. serialize e s = Inr (wrap64 (size_per_entry (sizeofs e) * round16 (mysize s)), s1) \<and>
              length (mydata s1) = length (mydata s) \<and>
              (\<forall>c \<in> set (mydata s1). length c = round16 (mysize s)) \<and>
              map (take (mysize s)) (mydata s1) = live s"
proof -
  let ?n = "mysize s" and ?c = "round16 (mysize s)"
  have len: "\<And>c. c \<in> set (mydata s) \<Longrightarrow> length c = mycapacity s"
    using wf by (simp add: soa_wf_def list_all_iff)
  have le: "?n \<le> mycapacity s" using wf by (simp add: soa_wf_def)
  note r = round16_props [OF nowrap]
  show ?thesis
  proof (cases "?c = mycapacity s")
    case True
    then show ?thesis
      by (simp add: serialize_def shrink_to_fit_def live_def len Let_def)
  next
    case False
    have "each_col (col_divy (junk e) ?n ?c) (mydata s)
          = Inr (map (\<lambda>col. take ?n col @ replicate (?c - ?n) (junk e)) (mydata s))"
    proof (intro each_col_map)
      fix col assume "col \<in> set (mydata s)"
      then have "length col = mycapacity s" by (rule len)
      with pos le r(1) show "col_divy (junk e) ?n ?c col = Inr (take ?n col @ replicate (?c - ?n) (junk e))"
        by (auto simp add: col_divy_def min_def)
    qed
    with False pos r(1) alloc le show ?thesis
      by (simp add: serialize_def shrink_to_fit_def divy_buffer_def with_cols_def live_def len
            min_def Let_def)
  qed
qed

lemma each_col_replicate:
  "f c = Inr d \<Longrightarrow> each_col f (replicate k c) = Inr (replicate k d)"
  by (induction k) auto

lemma deserialize_ok:
  assumes pos: "0 < n" and nowrap: "n + 15 < 2 ^ 64" and alloc: "\<forall>bytes. malloc_ok e bytes"
  shows "deserialize e (soa_empty k) n =
           Inr (wrap64 (size_per_entry (sizeofs e) * round16 n),
                \<lparr> mysize = n, mycapacity = round16 n,
                  mydata = replicate k (replicate (round16 n) (junk e)) \<rparr>)"
proof -
  note r = round16_props [OF nowrap]
  have "each_col (col_divy (junk e) 0 (round16 n)) (replicate k [])
        = Inr (replicate k (replicate (round16 n) (junk e)))"
    by (rule each_col_replicate) (simp add: col_divy_def)
  with pos r(1) alloc show ?thesis
    by (simp add: deserialize_def reserve_def soa_empty_def divy_buffer_def with_cols_def Let_def)
qed

text \<open>
  C8, as amended, for the column store. Let the container be well-formed with \<open>n > 0\<close> rows
  (\<open>n + 15\<close> not wrapping) and let every allocation succeed. Then \<^verbatim>\<open>serialize\<close> and
  \<^verbatim>\<open>deserialize(n)\<close> on a default-constructed container with the same columns report the
  same \<open>num_bytes\<close>, and once the cells of the serialized block are copied into the block
  that \<^verbatim>\<open>deserialize\<close> returned, the new container has \<open>n\<close> rows and every column holds
  the same values in the same order. (The claim said so for every container state; for an
  empty one the two byte counts differ.)
\<close>

theorem serialize_deserialize_roundtrip:
  assumes "soa_wf s" and "0 < mysize s" and "mysize s + 15 < 2 ^ 64"
    and "\<forall>bytes. malloc_ok e bytes"
  shows "\<exists>num_bytes s1 s2.
           serialize e s = Inr (num_bytes, s1) \<and>
           deserialize e (soa_empty (length (mydata s))) (mysize s) = Inr (num_bytes, s2) \<and>
           mysize (fill_buffer s2 (raw_buffer s1)) = mysize s \<and>
           live (fill_buffer s2 (raw_buffer s1)) = live s"
proof -
  from serialize_ok [OF assms] obtain s1 where
    s1: "serialize e s = Inr (wrap64 (size_per_entry (sizeofs e) * round16 (mysize s)), s1)"
    and l1: "length (mydata s1) = length (mydata s)"
    and c1: "\<forall>c \<in> set (mydata s1). length c = round16 (mysize s)"
    and v1: "map (take (mysize s)) (mydata s1) = live s"
    by blast
  let ?s2 = "\<lparr> mysize = mysize s, mycapacity = round16 (mysize s),
                mydata = replicate (length (mydata s)) (replicate (round16 (mysize s)) (junk e)) \<rparr>"
  have s2: "deserialize e (soa_empty (length (mydata s))) (mysize s)
            = Inr (wrap64 (size_per_entry (sizeofs e) * round16 (mysize s)), ?s2)"
    by (rule deserialize_ok [OF assms(2,3,4)])
  have "fill_cols (concat (mydata s1)) (mydata ?s2) = mydata s1"
    using l1 c1 by (intro fill_cols_concat) simp_all
  then have "mydata (fill_buffer ?s2 (raw_buffer s1)) = mydata s1"
    by (simp add: fill_buffer_def raw_buffer_def)
  moreover have "mysize (fill_buffer ?s2 (raw_buffer s1)) = mysize s"
    by (simp add: fill_buffer_def)
  ultimately have "live (fill_buffer ?s2 (raw_buffer s1)) = live s"
    using v1 by (simp add: live_def)
  with s1 s2 \<open>mysize (fill_buffer ?s2 (raw_buffer s1)) = mysize s\<close> show ?thesis
    by blast
qed

theorem serialize_deserialize_roundtrip_witness:
  "soa_wf rows_2x2 \<and> 0 < mysize rows_2x2 \<and> mysize rows_2x2 + 15 < 2 ^ 64 \<and>
   (\<forall>bytes. malloc_ok env_nat bytes) \<and>
   (\<exists>num_bytes s1 s2.
       serialize env_nat rows_2x2 = Inr (num_bytes, s1) \<and>
       deserialize env_nat (soa_empty 2) 2 = Inr (num_bytes, s2) \<and>
       mysize (fill_buffer s2 (raw_buffer s1)) = 2 \<and>
       live (fill_buffer s2 (raw_buffer s1)) = [[1, 2], [10, 20]])"
proof -
  have wf: "soa_wf rows_2x2"
    by (simp add: soa_wf_def rows_2x2_def)
  have pos: "0 < mysize rows_2x2" and nowrap: "mysize rows_2x2 + 15 < 2 ^ 64"
    by (simp_all add: rows_2x2_def)
  have alloc: "\<forall>bytes. malloc_ok env_nat bytes"
    by (simp add: env_nat_def)
  have v: "live rows_2x2 = [[1, 2], [10, 20]]" "mysize rows_2x2 = 2" "length (mydata rows_2x2) = 2"
    by (simp_all add: live_def rows_2x2_def)
  from serialize_deserialize_roundtrip [OF wf pos nowrap alloc] wf pos nowrap alloc
  show ?thesis
    by (simp add: v)
qed

text \<open>
  C8 as stated fails for the empty container: \<^verbatim>\<open>serialize\<close> shrinks the capacity to 0 and
  reports 0 bytes, \<^verbatim>\<open>deserialize(0)\<close> reserves the minimum of 16 row slots and reports
  \<open>8 * 16 = 128\<close> bytes.
\<close>

theorem serialize_deserialize_empty_counterexample:
  "map_sum id fst (serialize env_nat (soa_empty 2)) = Inr 0 \<and>
   map_sum id fst (deserialize env_nat (soa_empty 2) 0) = Inr 128"
  by (simp add: serialize_def shrink_to_fit_def deserialize_def reserve_def soa_empty_2 round16_def
        Let_def env_nat_def divy_buffer_def with_cols_def col_divy_def nums)

subsection \<open>Claim C7: the slot count after \<^verbatim>\<open>htable::reserve\<close> and the probe cycle\<close>

lemma probe_less [simp]: "0 < cap \<Longrightarrow> probe cap h n < cap"
  by (simp add: probe_def)

lemma probe_0 [simp]: "h < cap \<Longrightarrow> probe cap h 0 = h"
  by (simp add: probe_def)

lemma probe_Suc: "(probe cap h n + 2) mod cap = probe cap h (Suc n)"
proof -
  have "h + 2 * Suc n = (h + 2 * n) + 2" by simp
  then show ?thesis unfolding probe_def by (metis mod_add_left_eq)
qed

lemma hash_inc_probe:
  assumes "0 < cap" "cap + 1 < 2 ^ 64"
  shows "hash_inc cap (probe cap h n) = Inr (probe cap h (Suc n))"
proof -
  have "probe cap h n < cap" using assms(1) by simp
  then have "wrap64 (probe cap h n + 2) = probe cap h n + 2"
    using assms(2) by (simp add: wrap64_def)
  with assms(1) probe_Suc [of cap h n] show ?thesis
    by (simp add: hash_inc_def)
qed

lemma wrap_probe:
  assumes "0 < cap" "cap + 1 < 2 ^ 64"
  shows "wrap64 (probe cap h n + 2) mod cap = probe cap h (Suc n)"
  using hash_inc_probe [OF assms, of h n] assms(1) by (simp add: hash_inc_def)

lemma probe_seq_eq:
  assumes "0 < cap" "cap + 1 < 2 ^ 64" "h < cap"
  shows "probe_seq cap h n = Inr (probe cap h n)"
  by (induction n) (simp_all add: assms(3) hash_inc_probe [OF assms(1,2)])

lemma probe_inj_le:
  assumes "odd cap" "n \<le> m" "m < cap" "probe cap h n = probe cap h m"
  shows "n = m"
proof -
  have "(h + 2 * m) mod cap = (h + 2 * n) mod cap"
    using assms(4) by (simp add: probe_def)
  moreover have "h + 2 * n \<le> h + 2 * m" using assms(2) by simp
  ultimately have "cap dvd (h + 2 * m) - (h + 2 * n)"
    by (simp add: mod_eq_dvd_iff_nat)
  then have "cap dvd 2 * (m - n)"
    by (simp add: diff_mult_distrib2)
  moreover have "coprime cap 2"
    using assms(1) by simp
  ultimately have "cap dvd m - n"
    by (simp add: coprime_dvd_mult_right_iff)
  moreover have "m - n < cap" using assms(3) by simp
  ultimately have "m - n = 0"
    by (meson dvd_imp_le not_less zero_less_iff_neq_zero)
  with assms(2) show ?thesis by simp
qed

lemma probe_inj:
  assumes "odd cap" "n < cap" "m < cap" "probe cap h n = probe cap h m"
  shows "n = m"
proof (cases "n \<le> m")
  case True
  with assms show ?thesis by (intro probe_inj_le [of cap n m h]) simp_all
next
  case False
  with assms have "m = n" by (intro probe_inj_le [of cap m n h]) simp_all
  then show ?thesis by simp
qed

lemma probe_surj:
  assumes "odd cap" "p < cap"
  shows "\<exists>n<cap. probe cap h n = p"
proof -
  have pos: "0 < cap" using assms(2) by simp
  have inj: "inj_on (probe cap h) {..<cap}"
    using assms(1) by (auto intro!: inj_onI dest: probe_inj)
  have sub: "probe cap h ` {..<cap} \<subseteq> {..<cap}"
    using pos by auto
  have "card (probe cap h ` {..<cap}) = cap"
    using inj by (simp add: card_image)
  with sub have "probe cap h ` {..<cap} = {..<cap}"
    by (intro card_subset_eq) simp_all
  with assms(2) show ?thesis by (metis imageE lessThan_iff)
qed

lemma probe_period: "probe cap h cap = h mod cap"
  by (simp add: probe_def)

lemma round16_mod16: "round16 n mod 16 = 0"
proof (cases "n mod 16 = 0")
  case True
  then show ?thesis by (simp add: round16_def)
next
  case False
  have "(n + (16 - n mod 16)) mod 16 = 0" by presburger
  then have "16 dvd n + (16 - n mod 16)" by presburger
  moreover have "(16::nat) dvd 2 ^ 64" by simp
  ultimately have "16 dvd (n + (16 - n mod 16)) mod 2 ^ 64"
    by (simp add: dvd_mod)
  with False show ?thesis
    by (simp add: round16_def wrap64_def)
qed

lemma rehash_fields:
  "rehash e s = Some (Inr s') \<Longrightarrow>
   mycapacity s' = mycapacity s \<and> hashcapacity s' = hashcapacity s \<and> mysize s' = mysize s \<and>
   mydata s' = mydata s"
  by (auto simp add: rehash_def split: sum.splits option.splits)

lemma divy_buffer_fields:
  "divy_buffer e s = Inr s' \<Longrightarrow>
   mycapacity s' = mycapacity s \<and> mysize s' = mysize s \<and> hashcapacity s' = hashcapacity s \<and>
   hashmap s' = hashmap s \<and> hashcursor s' = hashcursor s"
  by (auto simp add: divy_buffer_def with_cols_def split: sum.splits)

lemma reserve_ht_grown:
  assumes "reserve_ht e s n = Some (Inr (True, s'))" "mycapacity s < mycapacity s'"
  shows "mycapacity s' mod 16 = 0 \<and>
         hashcapacity s' = dec64 (wrap64 (mycapacity s' + mycapacity s' + 4))"
proof -
  define newsize where "newsize = (if round16 n = 0 then 16 else round16 n)"
  have m16: "newsize mod 16 = 0"
    by (simp add: newsize_def round16_mod16)
  have ngt: "\<not> newsize \<le> mycapacity s"
  proof
    assume "newsize \<le> mycapacity s"
    with assms(1) have "s' = s"
      by (simp add: reserve_ht_def Let_def newsize_def)
    with assms(2) show False by simp
  qed
  from assms(1) ngt obtain s1 where
    d: "divy_buffer e (s\<lparr> mycapacity := newsize,
            hashmap := replicate (wrap64 (wrap64 (newsize + newsize + 4) * 4) div 4) 0,
            hashcapacity := dec64 (wrap64 (newsize + newsize + 4)) \<rparr>) = Inr s1"
    and r: "rehash e s1 = Some (Inr s')"
    by (auto simp add: reserve_ht_def Let_def newsize_def [symmetric]
        split: if_splits sum.splits option.splits)
  from divy_buffer_fields [OF d] have
    "mycapacity s1 = newsize" "hashcapacity s1 = dec64 (wrap64 (newsize + newsize + 4))"
    by auto
  with rehash_fields [OF r] m16 show ?thesis by simp
qed

lemma dec64_wrap64_Suc:
  assumes "x < 2 ^ 64"
  shows "dec64 (wrap64 (Suc x)) = x"
proof (cases "Suc x < 2 ^ 64")
  case True
  have "Suc x + (2 ^ 64 - 1) = x + 2 ^ 64" by simp
  then have "dec64 (Suc x) = (x + 2 ^ 64) mod 2 ^ 64"
    by (simp only: dec64_def)
  also have "\<dots> = x" using assms by simp
  finally show ?thesis using True by (simp add: wrap64_def)
next
  case False
  with assms have "Suc x = 2 ^ 64" by simp
  then have "wrap64 (Suc x) = 0" "x = 2 ^ 64 - 1"
    by (simp_all add: wrap64_def)
  then show ?thesis by (simp add: dec64_def)
qed

text \<open>
  C7, as amended. After a successful \<^verbatim>\<open>htable::reserve\<close> that grew the row capacity to
  \<open>c\<close>, if \<open>2 * c + 3\<close> does not exceed \<open>SIZE_MAX\<close>, then \<open>hashcapacity = 2 * c + 3\<close>, which
  is odd and greater than \<open>2 * c\<close>; and from every start slot \<open>h\<close> the probe step visits
  every slot at exactly one of the steps \<open>0 .. hashcapacity - 1\<close> and is back at \<open>h\<close> at
  step \<open>hashcapacity\<close> (so not before). (The claim said so for every \<open>c > 0\<close>.)
\<close>

theorem reserve_ht_hashcapacity:
  assumes "reserve_ht e s n = Some (Inr (True, s'))"
    and "mycapacity s < mycapacity s'"
    and "2 * mycapacity s' + 3 \<le> SIZE_MAX"
  shows "hashcapacity s' = 2 * mycapacity s' + 3 \<and> odd (hashcapacity s') \<and>
         2 * mycapacity s' < hashcapacity s' \<and>
         (\<forall>h < hashcapacity s'.
            (\<forall>p < hashcapacity s'.
               \<exists>!i. i < hashcapacity s' \<and> probe_seq (hashcapacity s') h i = Inr p) \<and>
            probe_seq (hashcapacity s') h (hashcapacity s') = Inr h)"
proof -
  let ?c = "mycapacity s'" and ?cap = "hashcapacity s'"
  from reserve_ht_grown [OF assms(1,2)] have
    m16: "?c mod 16 = 0" and hc: "?cap = dec64 (wrap64 (?c + ?c + 4))"
    by simp_all
  have b: "2 * ?c + 3 < 2 ^ 64"
    using assms(3) by (simp add: SIZE_MAX_def)
  have cap: "?cap = 2 * ?c + 3"
  proof -
    have "?c + ?c + 4 = Suc (2 * ?c + 3)" by simp
    with dec64_wrap64_Suc [OF b] show ?thesis by (simp only: hc)
  qed
  have od: "odd ?cap" by (simp add: cap)
  have pos: "0 < ?cap" by (simp add: cap)
  have "(2 * ?c + 3) mod 32 = 3"
    using m16 by presburger
  moreover have "(2 ^ 64 - 1) mod 32 = (31::nat)" by simp
  ultimately have "2 * ?c + 3 \<noteq> 2 ^ 64 - 1" by auto
  with b have small: "?cap + 1 < 2 ^ 64" by (simp add: cap)
  have cyc: "(\<forall>p < ?cap. \<exists>!i. i < ?cap \<and> probe_seq ?cap h i = Inr p) \<and>
             probe_seq ?cap h ?cap = Inr h" if h: "h < ?cap" for h
  proof (intro conjI allI impI)
    fix p assume p: "p < ?cap"
    from probe_surj [OF od p, of h] obtain i where "i < ?cap" "probe ?cap h i = p" by blast
    then show "\<exists>!i. i < ?cap \<and> probe_seq ?cap h i = Inr p"
      using probe_inj [OF od, of _ _ h]
      by (auto simp add: probe_seq_eq [OF pos small h])
  next
    show "probe_seq ?cap h ?cap = Inr h"
      using h by (simp add: probe_seq_eq [OF pos small h] probe_period)
  qed
  from cap od cyc show ?thesis by simp
qed

theorem reserve_ht_hashcapacity_witness:
  "reserve_ht env_nat (htable_empty 2) 0 = Some (Inr (True, table16)) \<and>
   mycapacity (htable_empty 2 :: nat htable) < mycapacity table16 \<and>
   2 * mycapacity table16 + 3 \<le> SIZE_MAX \<and>
   mycapacity table16 = 16 \<and> hashcapacity table16 = 35 \<and>
   (\<exists>!i. i < 35 \<and> probe_seq 35 5 i = Inr 4) \<and>
   probe_seq 35 5 35 = Inr 5"
proof -
  have c: "mycapacity (htable_empty 2 :: nat htable) < mycapacity table16"
    by (simp add: htable_empty_def table16_def)
  have b: "2 * mycapacity table16 + 3 \<le> SIZE_MAX"
    by (simp add: table16_def SIZE_MAX_def)
  have v: "mycapacity table16 = 16" "hashcapacity table16 = 35"
    by (simp_all add: table16_def)
  from reserve_ht_hashcapacity [OF reserve_ht_empty_2 c b]
  have "(\<forall>p < 35. \<exists>!i. i < 35 \<and> probe_seq 35 5 i = Inr p) \<and> probe_seq 35 5 35 = Inr 5"
    by (simp add: v)
  then have "(\<exists>!i. i < 35 \<and> probe_seq 35 5 i = Inr 4) \<and> probe_seq 35 5 35 = Inr 5"
    by simp
  with reserve_ht_empty_2 c b v show ?thesis by simp
qed

text \<open>
  C7 as stated fails where \<open>2 * c + 4\<close> wraps around: \<^verbatim>\<open>reserve(2^63)\<close> on a
  default-constructed table with two 4-byte columns computes \<open>hashcapacity = 4 - 1 = 3\<close>
  and asks for \<open>8 * 2^63 + 16 = 16\<close> bytes modulo \<open>2^64\<close>, which an allocator that grants no
  more than 1024 bytes grants: the call succeeds with row capacity \<open>2^63\<close> and 3 slots.
\<close>

theorem reserve_ht_hashcapacity_counterexample:
  "capacities (reserve_ht env_small (htable_empty 2) 9223372036854775808)
     = Some (Inr (True, 9223372036854775808, 3)) \<and>
   \<not> 2 * (9223372036854775808 :: nat) < 3"
  by (simp add: htable_empty_2 reserve_ht_def Let_def round16_def env_small_def divy_buffer_def
        with_cols_def col_divy_def rehash_def memset_slots_def capacities_def nums)

subsection \<open>\<^verbatim>\<open>find\<close> along a probe sequence\<close>

lemma chain_hits_end [simp]: "chain_hits hm cap cols key h N N = []"
  by (simp add: chain_hits_def)

lemma chain_hits_step:
  "p < N \<Longrightarrow> chain_hits hm cap cols key h p N =
     (if hm ! probe cap h p \<noteq> INDEXDEL \<and> at_cols 0 cols (hm ! probe cap h p) = Inr key
      then hm ! probe cap h p # chain_hits hm cap cols key h (Suc p) N
      else chain_hits hm cap cols key h (Suc p) N)"
  by (simp add: chain_hits_def upt_conv_Cons)

lemma probe_in: "0 < cap \<Longrightarrow> cap \<le> length hm \<Longrightarrow> probe cap h n < length hm"
  using probe_less [of cap h n] by linarith

text \<open>The loop of find from the p-th slot of a chain whose first empty slot is the N-th.\<close>

lemma find_loop_chain:
  assumes cap: "0 < cap" "cap + 1 < 2 ^ 64" "cap \<le> length hm"
    and nul: "hm ! probe cap h N = INDEXNUL"
    and full: "\<forall>q<N. hm ! probe cap h q \<noteq> INDEXNUL"
    and rd: "\<forall>q<N. hm ! probe cap h q \<noteq> INDEXDEL \<longrightarrow>
                (\<exists>k. at_cols 0 cols (hm ! probe cap h q) = Inr k)"
    and p: "p \<le> N"
  shows "(chain_hits hm cap cols key h p N = [] \<and>
          find_loop hm cap cols key (probe cap h p) = Some (Inr (probe cap h N, SIZE_MAX))) \<or>
         (\<exists>q. p \<le> q \<and> q < N \<and>
              find_loop hm cap cols key (probe cap h p)
                = Some (Inr (probe cap h q, hm ! probe cap h q)) \<and>
              chain_hits hm cap cols key h p N
                = hm ! probe cap h q # chain_hits hm cap cols key h (Suc q) N)"
  using p
proof (induction p rule: inc_induct)
  case base
  have "probe cap h N < length hm" using cap by (simp add: probe_in)
  with nul show ?case by (simp add: find_loop_nul)
next
  case (step n)
  let ?c = "probe cap h n"
  have len: "?c < length hm" using cap by (simp add: probe_in)
  have nn: "hm ! ?c \<noteq> INDEXNUL" using step.hyps full by simp
  note nxt = wrap_probe [OF cap(1,2), of h n]
  show ?case
  proof (cases "hm ! ?c = INDEXDEL")
    case True
    have "find_loop hm cap cols key ?c = find_loop hm cap cols key (probe cap h (Suc n))"
      using find_loop_del [OF len True cap(1)] nxt by simp
    moreover have "chain_hits hm cap cols key h n N = chain_hits hm cap cols key h (Suc n) N"
      using step.hyps True by (simp add: chain_hits_step)
    ultimately show ?thesis
      using step.IH by (metis Suc_leD)
  next
    case False
    from rd step.hyps(2) False obtain k where k: "at_cols 0 cols (hm ! ?c) = Inr k" by blast
    show ?thesis
    proof (cases "k = key")
      case True
      with k have "find_loop hm cap cols key ?c = Some (Inr (?c, hm ! ?c))"
        by (intro find_loop_hit len nn False) simp
      moreover have "chain_hits hm cap cols key h n N = hm ! ?c # chain_hits hm cap cols key h (Suc n) N"
        using step.hyps False k True by (simp add: chain_hits_step)
      ultimately show ?thesis
        using step.hyps by blast
    next
      case ne: False
      have "find_loop hm cap cols key ?c = find_loop hm cap cols key (probe cap h (Suc n))"
        using find_loop_miss [OF len nn False k ne cap(1)] nxt by simp
      moreover have "chain_hits hm cap cols key h n N = chain_hits hm cap cols key h (Suc n) N"
        using step.hyps k ne by (simp add: chain_hits_step)
      ultimately show ?thesis
        using step.IH by (metis Suc_leD)
    qed
  qed
qed

lemma find_ht_resume:
  assumes cap: "0 < cap" "cap + 1 < 2 ^ 64"
    and t: "hashmap t = hm" "hashcapacity t = cap" "mydata t = cols" "mysize t \<noteq> 0"
      "hashcursor t = probe cap h q"
    and l: "find_loop hm cap cols key (probe cap h (Suc q)) = Some (Inr (c, v))"
  shows "find_ht e t key False = Some (Inr (v, t\<lparr> hashcursor := c \<rparr>))"
proof -
  have "\<not> cap \<le> probe cap h q" using probe_less [OF cap(1), of h q] by simp
  with t l show ?thesis
    by (simp add: find_ht_def hash_inc_probe [OF cap])
qed

lemma find_more_chain:
  assumes cap: "0 < cap" "cap + 1 < 2 ^ 64" "cap \<le> length hm"
    and nul: "hm ! probe cap h N = INDEXNUL"
    and full: "\<forall>q<N. hm ! probe cap h q \<noteq> INDEXNUL"
    and rd: "\<forall>q<N. hm ! probe cap h q \<noteq> INDEXDEL \<longrightarrow>
                (\<exists>k. at_cols 0 cols (hm ! probe cap h q) = Inr k)"
    and t: "hashmap t = hm" "hashcapacity t = cap" "mydata t = cols" "mysize t \<noteq> 0"
      "hashcursor t = probe cap h q" "q < N"
  shows "find_more e t key (Suc (length (chain_hits hm cap cols key h (Suc q) N)))
         = Some (Inr (chain_hits hm cap cols key h (Suc q) N @ [SIZE_MAX]))"
  using t
proof (induction "N - q" arbitrary: q t rule: less_induct)
  case less
  from less.prems(6) have le: "Suc q \<le> N" by simp
  from find_loop_chain [OF cap nul full rd le, of key]
  show ?case
  proof (elim disjE exE conjE)
    assume e: "chain_hits hm cap cols key h (Suc q) N = []"
      and l: "find_loop hm cap cols key (probe cap h (Suc q)) = Some (Inr (probe cap h N, SIZE_MAX))"
    from find_ht_resume [OF cap(1,2) less.prems(1-5) l] e show ?thesis
      by simp
  next
    fix q'
    assume q': "Suc q \<le> q'" "q' < N"
      and l: "find_loop hm cap cols key (probe cap h (Suc q))
                = Some (Inr (probe cap h q', hm ! probe cap h q'))"
      and c: "chain_hits hm cap cols key h (Suc q) N
                = hm ! probe cap h q' # chain_hits hm cap cols key h (Suc q') N"
    let ?t = "t\<lparr> hashcursor := probe cap h q' \<rparr>"
    have "N - q' < N - q" using q' by simp
    from less.hyps [OF this, of ?t] less.prems q'
    have "find_more e ?t key (Suc (length (chain_hits hm cap cols key h (Suc q') N)))
          = Some (Inr (chain_hits hm cap cols key h (Suc q') N @ [SIZE_MAX]))"
      by simp
    with find_ht_resume [OF cap(1,2) less.prems(1-5) l] c show ?thesis
      by simp
  qed
qed

lemma find_seq_chain:
  assumes cap: "0 < cap" "cap + 1 < 2 ^ 64" "cap \<le> length hm"
    and nul: "hm ! probe cap h N = INDEXNUL"
    and full: "\<forall>q<N. hm ! probe cap h q \<noteq> INDEXNUL"
    and rd: "\<forall>q<N. hm ! probe cap h q \<noteq> INDEXDEL \<longrightarrow>
                (\<exists>k. at_cols 0 cols (hm ! probe cap h q) = Inr k)"
    and s: "hashmap s = hm" "hashcapacity s = cap" "mydata s = cols" "mysize s \<noteq> 0"
    and h: "std_hash e key mod cap = h"
  shows "find_seq e s key (length (chain_hits hm cap cols key h 0 N))
         = Some (Inr (chain_hits hm cap cols key h 0 N @ [SIZE_MAX]))"
proof -
  have hc: "h < cap" using h cap(1) by auto
  then have p0: "probe cap h 0 = h" by simp
  have start: "find_ht e s key True =
      (case find_loop hm cap cols key (probe cap h 0) of
         None \<Rightarrow> None
       | Some (Inl x) \<Rightarrow> Some (Inl x)
       | Some (Inr (c', index)) \<Rightarrow> Some (Inr (index, s\<lparr> hashcursor := c' \<rparr>)))"
    using s h cap(1) by (simp add: find_ht_def p0)
  have "0 \<le> N" by simp
  from find_loop_chain [OF cap nul full rd this, of key]
  show ?thesis
  proof (elim disjE exE conjE)
    assume "chain_hits hm cap cols key h 0 N = []"
      and "find_loop hm cap cols key (probe cap h 0) = Some (Inr (probe cap h N, SIZE_MAX))"
    then show ?thesis
      by (simp add: find_seq_def start)
  next
    fix q
    assume q: "q < N"
      and l: "find_loop hm cap cols key (probe cap h 0)
                = Some (Inr (probe cap h q, hm ! probe cap h q))"
      and c: "chain_hits hm cap cols key h 0 N
                = hm ! probe cap h q # chain_hits hm cap cols key h (Suc q) N"
    let ?t = "s\<lparr> hashcursor := probe cap h q \<rparr>"
    from find_more_chain [OF cap nul full rd, of ?t q e key] s q
    have "find_more e ?t key (Suc (length (chain_hits hm cap cols key h (Suc q) N)))
          = Some (Inr (chain_hits hm cap cols key h (Suc q) N @ [SIZE_MAX]))"
      by simp
    with l c show ?thesis
      by (simp add: find_seq_def start)
  qed
qed

subsection \<open>Slot arrays filled by insertion only\<close>

lemma tidy_cong:
  assumes "tidy hm cap key home n" "\<forall>i<n. key' i = key i \<and> home' i = home i"
  shows "tidy hm cap key' home' n"
  unfolding tidy_def
proof (intro conjI allI impI)
  fix i assume i: "i < n"
  from assms(1) i obtain m where m: "m < cap" "hm ! probe cap (home i) m = i"
    and b: "\<forall>j<m. hm ! probe cap (home i) j \<noteq> INDEXNUL \<and>
                (key (hm ! probe cap (home i) j) = key i \<longrightarrow> hm ! probe cap (home i) j < i)"
    unfolding tidy_def by blast
  have hi: "home' i = home i" "key' i = key i" using assms(2) i by simp_all
  have "\<forall>j<m. hm ! probe cap (home' i) j \<noteq> INDEXNUL \<and>
                (key' (hm ! probe cap (home' i) j) = key' i \<longrightarrow> hm ! probe cap (home' i) j < i)"
  proof (intro allI impI conjI)
    fix j assume j: "j < m"
    show "hm ! probe cap (home' i) j \<noteq> INDEXNUL" using b j hi by simp
    assume k: "key' (hm ! probe cap (home' i) j) = key' i"
    have pos: "0 < cap" using m(1) by simp
    have "hm ! probe cap (home i) j < n"
      using assms(1) b j probe_less [OF pos, of "home i" j] unfolding tidy_def by blast
    with assms(2) k hi have "key (hm ! probe cap (home i) j) = key i" by simp
    with b j hi show "hm ! probe cap (home' i) j < i" by simp
  qed
  with m hi show "\<exists>m<cap. hm ! probe cap (home' i) m = i \<and>
         (\<forall>j<m. hm ! probe cap (home' i) j \<noteq> INDEXNUL \<and>
                (key' (hm ! probe cap (home' i) j) = key' i \<longrightarrow> hm ! probe cap (home' i) j < i))"
    by auto
qed (use assms(1) in \<open>auto simp add: tidy_def\<close>)

lemma tidy_has_nul:
  assumes "tidy hm cap key home n" "n < cap"
  shows "\<exists>p<cap. hm ! p = INDEXNUL"
proof (rule ccontr)
  assume "\<not> (\<exists>p<cap. hm ! p = INDEXNUL)"
  then have nn: "\<And>p. p < cap \<Longrightarrow> hm ! p \<noteq> INDEXNUL" by blast
  have inj: "inj_on (\<lambda>p. hm ! p) {..<cap}"
    using assms(1) nn unfolding tidy_def inj_on_def by (metis lessThan_iff)
  have "(\<lambda>p. hm ! p) ` {..<cap} \<subseteq> {..<n}"
    using assms(1) nn unfolding tidy_def by auto
  then have "card ((\<lambda>p. hm ! p) ` {..<cap}) \<le> n"
    by (metis card_lessThan card_mono finite_lessThan)
  with inj have "cap \<le> n" by (simp add: card_image)
  with assms(2) show False by simp
qed

lemma first_nul:
  assumes "odd cap" "\<exists>p<cap. hm ! p = INDEXNUL"
  shows "\<exists>M<cap. hm ! probe cap h M = INDEXNUL \<and> (\<forall>j<M. hm ! probe cap h j \<noteq> INDEXNUL)"
proof -
  from assms(2) obtain p where p: "p < cap" "hm ! p = INDEXNUL" by blast
  from probe_surj [OF assms(1) p(1), of h] obtain m where m: "m < cap" "probe cap h m = p" by blast
  with p have "\<exists>m. hm ! probe cap h m = INDEXNUL" by auto
  then obtain M where M: "hm ! probe cap h M = INDEXNUL" "\<forall>j<M. hm ! probe cap h j \<noteq> INDEXNUL"
    using exists_least_iff [of "\<lambda>m. hm ! probe cap h m = INDEXNUL"] by blast
  have "M \<le> m" using M(2) m p by (metis not_le)
  with m(1) have "M < cap" by simp
  with M show ?thesis by blast
qed

lemma open_slot_chain:
  assumes cap: "0 < cap" "cap + 1 < 2 ^ 64" "cap \<le> length hm"
    and M: "hm ! probe cap h M = INDEXNUL \<or> hm ! probe cap h M = INDEXDEL"
    and full: "\<forall>j<M. hm ! probe cap h j \<noteq> INDEXNUL \<and> hm ! probe cap h j \<noteq> INDEXDEL"
    and h: "h < cap"
  shows "open_slot hm cap h = Some (Inr (probe cap h M))"
proof -
  have "m \<le> M \<Longrightarrow> open_slot hm cap (probe cap h 0) = open_slot hm cap (probe cap h m)" for m
  proof (induction m)
    case 0
    show ?case by simp
  next
    case (Suc m)
    then have "m < M" by simp
    with full have "hm ! probe cap h m \<noteq> INDEXNUL" "hm ! probe cap h m \<noteq> INDEXDEL" by simp_all
    from open_slot_step [OF probe_in [OF cap(1,3)] this cap(1)] wrap_probe [OF cap(1,2), of h m]
    have "open_slot hm cap (probe cap h m) = open_slot hm cap (probe cap h (Suc m))" by simp
    with Suc show ?case by simp
  qed
  from this [of M] h open_slot_hit [OF probe_in [OF cap(1,3)] M] show ?thesis
    by simp
qed

lemma tidy_place:
  assumes t: "tidy hm cap key home n"
    and od: "odd cap" and len: "cap \<le> length hm" and n: "n < INDEXNUL"
    and M: "M < cap" "hm ! probe cap (home n) M = INDEXNUL"
      "\<forall>j<M. hm ! probe cap (home n) j \<noteq> INDEXNUL"
  shows "tidy (hm[probe cap (home n) M := n]) cap key home (Suc n)"
proof -
  let ?s = "probe cap (home n) M" and ?hm = "hm[probe cap (home n) M := n]"
  have pos: "0 < cap" using M(1) by simp
  have sl: "?s < length hm" using probe_in [OF pos len] .
  have sc: "?s < cap" using pos by simp
  have val: "\<And>p. p < cap \<Longrightarrow> hm ! p = INDEXNUL \<or> hm ! p < n"
    using t unfolding tidy_def by blast
  have inj: "\<And>p q. p < cap \<Longrightarrow> q < cap \<Longrightarrow> hm ! p = hm ! q \<Longrightarrow> hm ! p = INDEXNUL \<or> p = q"
    using t unfolding tidy_def by blast
  have upd: "\<And>p. p < cap \<Longrightarrow> ?hm ! p = (if p = ?s then n else hm ! p)"
    using len by (simp add: nth_list_update)
  have keep: "\<And>p. p < cap \<Longrightarrow> hm ! p \<noteq> INDEXNUL \<Longrightarrow> ?hm ! p = hm ! p"
    using M(2) upd by auto
  show ?thesis
    unfolding tidy_def
  proof (intro conjI allI impI)
    fix p assume "p < cap"
    with val [of p] upd [of p] show "?hm ! p = INDEXNUL \<or> ?hm ! p < Suc n"
      by auto
  next
    fix p q assume pq: "p < cap" "q < cap" "?hm ! p = ?hm ! q"
    show "?hm ! p = INDEXNUL \<or> p = q"
    proof (cases "p = ?s"; cases "q = ?s")
      assume "p = ?s" "q \<noteq> ?s"
      with pq upd [of p] upd [of q] val [of q] n show ?thesis by auto
    next
      assume "p \<noteq> ?s" "q = ?s"
      with pq upd [of p] upd [of q] val [of p] n show ?thesis by auto
    next
      assume "p \<noteq> ?s" "q \<noteq> ?s"
      with pq upd [of p] upd [of q] inj [of p q] show ?thesis by auto
    qed simp
  next
    fix i assume "i < Suc n"
    show "\<exists>m<cap. ?hm ! probe cap (home i) m = i \<and>
         (\<forall>j<m. ?hm ! probe cap (home i) j \<noteq> INDEXNUL \<and>
                (key (?hm ! probe cap (home i) j) = key i \<longrightarrow> ?hm ! probe cap (home i) j < i))"
    proof (cases "i = n")
      case True
      have "\<forall>j<M. ?hm ! probe cap (home n) j \<noteq> INDEXNUL \<and>
                (key (?hm ! probe cap (home n) j) = key n \<longrightarrow> ?hm ! probe cap (home n) j < n)"
      proof (intro allI impI)
        fix j assume j: "j < M"
        have c: "probe cap (home n) j < cap" using pos by simp
        from j M(3) have nn: "hm ! probe cap (home n) j \<noteq> INDEXNUL" by simp
        with keep [OF c] val [OF c]
        show "?hm ! probe cap (home n) j \<noteq> INDEXNUL \<and>
                (key (?hm ! probe cap (home n) j) = key n \<longrightarrow> ?hm ! probe cap (home n) j < n)"
          by auto
      qed
      moreover have "?hm ! ?s = n" using sl by simp
      ultimately show ?thesis using True M(1) by blast
    next
      case False
      with \<open>i < Suc n\<close> have i: "i < n" by simp
      from t i obtain m where m: "m < cap" "hm ! probe cap (home i) m = i"
        and b: "\<forall>j<m. hm ! probe cap (home i) j \<noteq> INDEXNUL \<and>
                (key (hm ! probe cap (home i) j) = key i \<longrightarrow> hm ! probe cap (home i) j < i)"
        unfolding tidy_def by blast
      have c: "\<And>j. probe cap (home i) j < cap" using pos by simp
      have ini: "i \<noteq> INDEXNUL"
        using i n by simp
      have "?hm ! probe cap (home i) m = i"
        using keep [OF c, of m] m(2) ini by simp
      moreover have "\<forall>j<m. ?hm ! probe cap (home i) j \<noteq> INDEXNUL \<and>
                (key (?hm ! probe cap (home i) j) = key i \<longrightarrow> ?hm ! probe cap (home i) j < i)"
        using b keep [OF c] by simp
      ultimately show ?thesis using m(1) by blast
    qed
  qed
qed

lemma tidy_chain_hits:
  assumes t: "tidy hm cap key home n"
    and od: "odd cap" and n: "n \<le> INDEXDEL"
    and cols: "0 < length cols" "\<forall>i<n. i < length (cols ! 0) \<and> cols ! 0 ! i = key i"
    and homes: "\<forall>i<n. key i = k \<longrightarrow> home i = h"
    and N: "N < cap" "hm ! probe cap h N = INDEXNUL" "\<forall>j<N. hm ! probe cap h j \<noteq> INDEXNUL"
  shows "chain_hits hm cap cols k h 0 N = filter (\<lambda>i. key i = k) [0..<n]"
proof -
  define f where "f q = hm ! probe cap h q" for q
  define ps where "ps = filter (\<lambda>q. key (f q) = k) [0..<N]"
  have pos: "0 < cap" using N(1) by simp
  have val: "\<And>p. p < cap \<Longrightarrow> hm ! p = INDEXNUL \<or> hm ! p < n"
    using t unfolding tidy_def by blast
  have inj: "\<And>p q. p < cap \<Longrightarrow> q < cap \<Longrightarrow> hm ! p = hm ! q \<Longrightarrow> hm ! p = INDEXNUL \<or> p = q"
    using t unfolding tidy_def by blast
  have row: "f q < n" if "q < N" for q
    using val [OF probe_less [OF pos], of h q] N(3) that by (auto simp add: f_def)
  have rd: "f q \<noteq> INDEXDEL \<and> at_cols 0 cols (f q) = Inr (key (f q))" if "q < N" for q
    using row [OF that] n cols by (auto simp add: at_cols_def)
  have "chain_hits hm cap cols k h 0 N
        = map f (filter (\<lambda>q. f q \<noteq> INDEXDEL \<and> at_cols 0 cols (f q) = Inr k) [0..<N])"
    by (simp add: chain_hits_def filter_map comp_def f_def)
  also have "filter (\<lambda>q. f q \<noteq> INDEXDEL \<and> at_cols 0 cols (f q) = Inr k) [0..<N] = ps"
    unfolding ps_def by (rule filter_cong) (use rd in auto)
  finally have L: "chain_hits hm cap cols k h 0 N = map f ps" .
  have psN: "\<And>q. q \<in> set ps \<Longrightarrow> q < N \<and> key (f q) = k"
    by (auto simp add: ps_def)
  have inc: "sorted_wrt (<) ps"
    unfolding ps_def by (rule sorted_wrt_filter) simp
  have lt: "f p < f q" if p: "p \<in> set ps" and q: "q \<in> set ps" and pq: "p < q" for p q
  proof -
    from psN [OF q] have qN: "q < N" and kq: "key (f q) = k" by simp_all
    from psN [OF p] have kp: "key (f p) = k" by simp
    let ?b = "f q"
    have b: "?b < n" using row [OF qN] .
    from t b obtain m where m: "m < cap" "hm ! probe cap (home ?b) m = ?b"
      and o: "\<forall>j<m. hm ! probe cap (home ?b) j \<noteq> INDEXNUL \<and>
                (key (hm ! probe cap (home ?b) j) = key ?b \<longrightarrow> hm ! probe cap (home ?b) j < ?b)"
      unfolding tidy_def by blast
    have hb: "home ?b = h" using homes b kq by simp
    have "hm ! probe cap h q \<noteq> INDEXNUL" using N(3) qN by simp
    with inj [OF probe_less [OF pos] probe_less [OF pos], of h m h q] m(2) hb
    have "probe cap h m = probe cap h q" by (auto simp add: f_def)
    with probe_inj [OF od m(1) _ this] qN N(1) have "m = q" by simp
    with o pq hb kp kq show ?thesis by (simp add: f_def)
  qed
  have "sorted_wrt (\<lambda>p q. f p < f q) ps"
    by (rule sorted_wrt_mono_rel [OF _ inc]) (rule lt)
  then have sl: "sorted_wrt (<) (map f ps)"
    by (simp add: sorted_wrt_map)
  have sr: "sorted_wrt (<) (filter (\<lambda>i. key i = k) [0..<n])"
    by (rule sorted_wrt_filter) simp
  have "set (map f ps) = set (filter (\<lambda>i. key i = k) [0..<n])"
  proof (intro set_eqI iffI)
    fix v assume "v \<in> set (map f ps)"
    then obtain q where "q \<in> set ps" "v = f q" by auto
    with psN [of q] row [of q] show "v \<in> set (filter (\<lambda>i. key i = k) [0..<n])" by simp
  next
    fix i assume "i \<in> set (filter (\<lambda>i. key i = k) [0..<n])"
    then have i: "i < n" "key i = k" by simp_all
    from t i(1) obtain m where m: "m < cap" "hm ! probe cap (home i) m = i"
      and o: "\<forall>j<m. hm ! probe cap (home i) j \<noteq> INDEXNUL"
      unfolding tidy_def by blast
    have hi: "home i = h" using homes i by simp
    have "i \<noteq> INDEXNUL" using i(1) n by (simp add: INDEXNUL_def INDEXDEL_def)
    with m(2) hi N(2) have "m \<noteq> N" by auto
    moreover have "\<not> N < m" using o hi N(2) by auto
    ultimately have "m < N" by simp
    with m(2) hi i(2) have "m \<in> set ps" "f m = i" by (auto simp add: ps_def f_def)
    then show "i \<in> set (map f ps)" by force
  qed
  with sl sr have "map f ps = filter (\<lambda>i. key i = k) [0..<n]"
    by (intro sorted_distinct_set_unique) (simp_all add: strict_sorted_iff)
  with L show ?thesis by simp
qed

subsection \<open>Claim C1: enumerating the rows of a key with \<^verbatim>\<open>find\<close>\<close>

lemma map_upt_nth: "map (\<lambda>K. f (xs ! K)) [0..<length xs] = map f xs"
proof -
  have "map f (map ((!) xs) [0..<length xs]) = map f xs"
    by (simp only: map_nth)
  then show ?thesis
    by (simp only: map_map comp_def)
qed

lemma push_back_room:
  assumes wf: "soa_wf s" and room: "mysize s < mycapacity s" and n64: "mysize s + 1 < 2 ^ 64"
    and ar: "length row = length (mydata s)"
  shows "push_back e s row =
           Inr (True, s\<lparr> mydata := map2 (\<lambda>v c. c[mysize s := v]) row (mydata s),
                          mysize := Suc (mysize s) \<rparr>)"
proof -
  have len: "\<And>c. c \<in> set (mydata s) \<Longrightarrow> length c = mycapacity s"
    using wf by (simp add: soa_wf_def list_all_iff)
  have "each_col_arg (col_construct (mysize s)) row (mydata s)
        = Inr (map2 (\<lambda>v c. c[mysize s := v]) row (mydata s))"
    using ar
  proof (rule each_col_arg_map2)
    fix v c assume "(v, c) \<in> set (zip row (mydata s))"
    then have "c \<in> set (mydata s)" by (rule set_zip_rightD)
    with len room show "col_construct (mysize s) v c = Inr (c[mysize s := v])"
      by (simp add: col_construct_def)
  qed
  with room n64 show ?thesis
    by (simp add: push_back_def base_push_back_def with_cols_def wrap64_def)
qed

lemma insert_ht_placed:
  assumes wf: "soa_wf s" and room: "mysize s < mycapacity s" and small: "mysize s < max_size"
    and ar: "Suc (length items) = length (mydata s)"
    and cap: "0 < hashcapacity s" "hashcapacity s + 1 < 2 ^ 64" "hashcapacity s \<le> length (hashmap s)"
    and M: "hashmap s ! probe (hashcapacity s) (std_hash e key mod hashcapacity s) M = INDEXNUL \<or>
            hashmap s ! probe (hashcapacity s) (std_hash e key mod hashcapacity s) M = INDEXDEL"
    and full: "\<forall>j<M. hashmap s ! probe (hashcapacity s) (std_hash e key mod hashcapacity s) j
                  \<noteq> INDEXNUL \<and>
                hashmap s ! probe (hashcapacity s) (std_hash e key mod hashcapacity s) j
                  \<noteq> INDEXDEL"
  shows "insert_ht e s key items =
           Some (Inr (True, placed s (key # items)
                        (probe (hashcapacity s) (std_hash e key mod hashcapacity s) M)))"
proof -
  let ?n = "mysize s" and ?cap = "hashcapacity s" and ?hm = "hashmap s"
  let ?h = "std_hash e key mod ?cap"
  have n32: "?n < 2 ^ 32" using small by (simp add: nums)
  have os: "open_slot ?hm ?cap ?h = Some (Inr (probe ?cap ?h M))"
    using open_slot_chain [OF cap M full] cap(1) by simp
  have pb: "push_back e s (key # items) =
              Inr (True, s\<lparr> mydata := map2 (\<lambda>v c. c[?n := v]) (key # items) (mydata s),
                             mysize := Suc ?n \<rparr>)"
    using push_back_room [OF wf room, of "key # items" e] n32 ar by simp
  show ?thesis
    using room small cap(1) os pb n32 by (simp add: insert_ht_def placed_def u32_def)
qed

lemma placed_fields:
  assumes wf: "soa_wf s" and ne: "mydata s \<noteq> []" and room: "mysize s < mycapacity s"
    and ar: "Suc (length items) = length (mydata s)"
  shows "soa_wf (placed s (key # items) slot)"
    and "mysize (placed s (key # items) slot) = Suc (mysize s)"
    and "mycapacity (placed s (key # items) slot) = mycapacity s"
    and "hashcapacity (placed s (key # items) slot) = hashcapacity s"
    and "hashmap (placed s (key # items) slot) = (hashmap s)[slot := mysize s]"
    and "length (mydata (placed s (key # items) slot)) = length (mydata s)"
    and "\<forall>i<mysize s. row_of (placed s (key # items) slot) i = row_of s i"
    and "row_of (placed s (key # items) slot) (mysize s) = map Inr (key # items)"
    and "\<And>i. mydata (placed s (key # items) slot) ! 0 ! i
            = (if i = mysize s then key else mydata s ! 0 ! i)"
proof -
  let ?n = "mysize s" and ?cols = "mydata s" and ?s' = "placed s (key # items) slot"
  define cols' where "cols' = map2 (\<lambda>v c. c[?n := v]) (key # items) ?cols"
  have len: "\<And>c. c \<in> set ?cols \<Longrightarrow> length c = mycapacity s"
    using wf by (simp add: soa_wf_def list_all_iff)
  have d: "mydata ?s' = cols'" by (simp add: placed_def cols'_def)
  have l': "length cols' = length ?cols"
    using ar by (simp add: cols'_def)
  have c': "cols' ! c = (?cols ! c)[?n := (key # items) ! c]" if "c < length ?cols" for c
    using that ar by (simp add: cols'_def)
  have cl: "length (?cols ! c) = mycapacity s" if "c < length ?cols" for c
    using that by (simp add: len)
  show "mysize ?s' = Suc ?n" "mycapacity ?s' = mycapacity s" "hashcapacity ?s' = hashcapacity s"
    "hashmap ?s' = (hashmap s)[slot := ?n]"
    by (simp_all add: placed_def)
  show "length (mydata ?s') = length ?cols" using l' d by simp
  show "\<forall>i<?n. row_of ?s' i = row_of s i"
  proof (intro allI impI)
    fix i assume "i < ?n"
    then show "row_of ?s' i = row_of s i"
      using l' by (simp add: row_of_def d at_def at_cols_def c' cl)
  qed
  have "row_of ?s' ?n = map (\<lambda>K. Inr ((key # items) ! K)) [0..<length (key # items)]"
    using l' ar room by (simp add: row_of_def d at_def at_cols_def c' cl)
  then show "row_of ?s' ?n = map Inr (key # items)"
    by (simp only: map_upt_nth)
  show "mydata ?s' ! 0 ! i = (if i = ?n then key else ?cols ! 0 ! i)" for i
    using ne room c' [of 0] cl [of 0] d by (cases "i = ?n") simp_all
  show "soa_wf ?s'"
    using wf room l' unfolding soa_wf_def list_all_iff
    by (auto simp add: in_set_conv_nth c' cl d placed_def)
qed

lemma insert_ht_nogrow:
  assumes b: "built e s" and room: "mysize s < mycapacity s" and small: "mysize s < max_size"
    and ar: "Suc (length items) = length (mydata s)"
  shows "\<exists>s'. insert_ht e s key items = Some (Inr (True, s')) \<and> built e s' \<and>
              mysize s' = Suc (mysize s) \<and> mycapacity s' = mycapacity s \<and>
              length (mydata s') = length (mydata s) \<and>
              (\<forall>i<mysize s. row_of s' i = row_of s i) \<and>
              row_of s' (mysize s) = map Inr (key # items)"
proof -
  let ?n = "mysize s" and ?cap = "hashcapacity s" and ?hm = "hashmap s" and ?cols = "mydata s"
  let ?key = "\<lambda>i. mydata s ! 0 ! i"
  let ?home = "\<lambda>i. std_hash e (mydata s ! 0 ! i) mod hashcapacity s"
  let ?h = "std_hash e key mod ?cap"
  from b have wf: "soa_wf s" and ne: "?cols \<noteq> []" and c33: "mycapacity s < 2 ^ 33"
    and hc: "?cap = 2 * mycapacity s + 3" and hl: "?cap \<le> length ?hm"
    and m16: "mycapacity s mod 16 = 0" and cpos: "0 < mycapacity s"
    and t: "tidy ?hm ?cap ?key ?home ?n"
    unfolding built_def by blast+
  have od: "odd ?cap" and pos: "0 < ?cap" and c64: "?cap + 1 < 2 ^ 64" and ncap: "?n < ?cap"
    using hc c33 room by simp_all
  have n32: "?n < INDEXDEL" "?n < INDEXNUL"
    using small by (simp_all add: nums)
  have val: "\<And>p. p < ?cap \<Longrightarrow> ?hm ! p = INDEXNUL \<or> ?hm ! p < ?n"
    using t unfolding tidy_def by blast
  from first_nul [OF od tidy_has_nul [OF t ncap], of ?h] obtain M where
    M: "M < ?cap" "?hm ! probe ?cap ?h M = INDEXNUL" "\<forall>j<M. ?hm ! probe ?cap ?h j \<noteq> INDEXNUL"
    by blast
  have full: "\<forall>j<M. ?hm ! probe ?cap ?h j \<noteq> INDEXNUL \<and> ?hm ! probe ?cap ?h j \<noteq> INDEXDEL"
  proof (intro allI impI)
    fix j assume "j < M"
    with M(3) have "?hm ! probe ?cap ?h j \<noteq> INDEXNUL" by simp
    with val [OF probe_less [OF pos], of ?h j] have "?hm ! probe ?cap ?h j < ?n" by simp
    with n32(1) \<open>?hm ! probe ?cap ?h j \<noteq> INDEXNUL\<close>
    show "?hm ! probe ?cap ?h j \<noteq> INDEXNUL \<and> ?hm ! probe ?cap ?h j \<noteq> INDEXDEL"
      by simp
  qed
  let ?s' = "placed s (key # items) (probe ?cap ?h M)"
  from M(2) have M': "?hm ! probe ?cap ?h M = INDEXNUL \<or> ?hm ! probe ?cap ?h M = INDEXDEL" ..
  note ins = insert_ht_placed [OF wf room small ar pos c64 hl M' full]
  note pf = placed_fields [OF wf ne room ar, of key "probe ?cap ?h M"]
  let ?key' = "\<lambda>i. mydata ?s' ! 0 ! i" and ?home' = "\<lambda>i. std_hash e (mydata ?s' ! 0 ! i) mod ?cap"
  have "tidy ?hm ?cap ?key' ?home' ?n"
    by (rule tidy_cong [OF t]) (simp add: pf(9))
  moreover have hn: "?home' ?n = ?h" by (simp add: pf(9))
  ultimately have "tidy (?hm[probe ?cap ?h M := ?n]) ?cap ?key' ?home' (Suc ?n)"
    using tidy_place [of ?hm ?cap ?key' ?home' ?n M] od hl n32(2) M by simp
  with pf(1-6) ne m16 cpos c33 hc hl small have "built e ?s'"
    unfolding built_def by auto
  with ins pf show ?thesis by blast
qed

lemma insert_all_rows:
  assumes "built e s0" "mysize s0 + length rs \<le> mycapacity s0"
    "mysize s0 + length rs \<le> max_size"
    "\<forall>r\<in>set rs. Suc (length (snd r)) = length (mydata s0)"
  shows "\<exists>s. insert_all e s0 rs = Some (Inr (True, s)) \<and> built e s \<and>
             mysize s = mysize s0 + length rs \<and> length (mydata s) = length (mydata s0) \<and>
             (\<forall>i<mysize s0. row_of s i = row_of s0 i) \<and>
             (\<forall>i<length rs. row_of s (mysize s0 + i) = map Inr (fst (rs ! i) # snd (rs ! i)))"
  using assms
proof (induction rs arbitrary: s0)
  case Nil
  then show ?case by simp
next
  case (Cons r rs)
  obtain key items where r: "r = (key, items)" by (cases r)
  from Cons.prems r have room: "mysize s0 < mycapacity s0" and small: "mysize s0 < max_size"
    and ar: "Suc (length items) = length (mydata s0)"
    by simp_all
  from insert_ht_nogrow [OF Cons.prems(1) room small ar, of key] obtain s1 where
    s1: "insert_ht e s0 key items = Some (Inr (True, s1))" "built e s1"
      "mysize s1 = Suc (mysize s0)" "mycapacity s1 = mycapacity s0"
      "length (mydata s1) = length (mydata s0)"
      "\<forall>i<mysize s0. row_of s1 i = row_of s0 i"
      "row_of s1 (mysize s0) = map Inr (key # items)"
    by blast
  from Cons.IH [of s1] s1 Cons.prems obtain s where
    s: "insert_all e s1 rs = Some (Inr (True, s))" "built e s"
      "mysize s = mysize s1 + length rs" "length (mydata s) = length (mydata s1)"
      "\<forall>i<mysize s1. row_of s i = row_of s1 i"
      "\<forall>i<length rs. row_of s (mysize s1 + i) = map Inr (fst (rs ! i) # snd (rs ! i))"
    by auto
  have "row_of s (mysize s0 + i) = map Inr (fst ((r # rs) ! i) # snd ((r # rs) ! i))"
    if "i < length (r # rs)" for i
  proof (cases i)
    case 0
    with s(5) s1(3,7) r show ?thesis by simp
  next
    case (Suc j)
    with that s(6) s1(3) show ?thesis by simp
  qed
  moreover have "row_of s i = row_of s0 i" if "i < mysize s0" for i
    using that s(5) s1(3,6) by simp
  ultimately show ?case
    using s(1,2,3,4) s1(1,3,5) r by simp
qed

lemma built_find:
  assumes b: "built e s"
  shows "find_seq e s k (length (rows_with s k)) = Some (Inr (rows_with s k @ [SIZE_MAX]))"
proof (cases "mysize s = 0")
  case True
  then show ?thesis
    by (simp add: rows_with_def find_seq_def find_ht_def)
next
  case False
  let ?n = "mysize s" and ?cap = "hashcapacity s" and ?hm = "hashmap s" and ?cols = "mydata s"
  let ?key = "\<lambda>i. mydata s ! 0 ! i"
  let ?home = "\<lambda>i. std_hash e (mydata s ! 0 ! i) mod hashcapacity s"
  let ?h = "std_hash e k mod ?cap"
  from b have wf: "soa_wf s" and ne: "?cols \<noteq> []" and c33: "mycapacity s < 2 ^ 33"
    and hc: "?cap = 2 * mycapacity s + 3" and hl: "?cap \<le> length ?hm"
    and small: "?n \<le> max_size"
    and t: "tidy ?hm ?cap ?key ?home ?n"
    unfolding built_def by blast+
  have room: "?n \<le> mycapacity s" using wf by (simp add: soa_wf_def)
  have od: "odd ?cap" and pos: "0 < ?cap" and c64: "?cap + 1 < 2 ^ 64" and ncap: "?n < ?cap"
    using hc c33 room by simp_all
  have l0: "length (?cols ! 0) = mycapacity s"
    using wf ne by (cases ?cols) (simp_all add: soa_wf_def)
  have nd: "?n \<le> INDEXDEL" using small by (simp add: nums)
  have val: "\<And>p. p < ?cap \<Longrightarrow> ?hm ! p = INDEXNUL \<or> ?hm ! p < ?n"
    using t unfolding tidy_def by blast
  from first_nul [OF od tidy_has_nul [OF t ncap], of ?h] obtain N where
    N: "N < ?cap" "?hm ! probe ?cap ?h N = INDEXNUL" "\<forall>j<N. ?hm ! probe ?cap ?h j \<noteq> INDEXNUL"
    by blast
  have rd: "\<forall>q<N. ?hm ! probe ?cap ?h q \<noteq> INDEXDEL \<longrightarrow>
              (\<exists>k. at_cols 0 ?cols (?hm ! probe ?cap ?h q) = Inr k)"
  proof (intro allI impI)
    fix q assume "q < N"
    with N(3) have "?hm ! probe ?cap ?h q \<noteq> INDEXNUL" by simp
    with val [OF probe_less [OF pos], of ?h q] have "?hm ! probe ?cap ?h q < ?n" by simp
    with room l0 ne show "\<exists>k. at_cols 0 ?cols (?hm ! probe ?cap ?h q) = Inr k"
      by (simp add: at_cols_def)
  qed
  have fs: "find_seq e s k (length (chain_hits ?hm ?cap ?cols k ?h 0 N))
            = Some (Inr (chain_hits ?hm ?cap ?cols k ?h 0 N @ [SIZE_MAX]))"
    by (rule find_seq_chain [OF pos c64 hl N(2) N(3) rd refl refl refl False refl])
  have "chain_hits ?hm ?cap ?cols k ?h 0 N = filter (\<lambda>i. ?key i = k) [0..<?n]"
    using tidy_chain_hits [OF t od nd _ _ _ N, of ?cols k] ne room l0 by simp
  also have "\<dots> = rows_with s k"
    unfolding rows_with_def using room l0 ne
    by (intro filter_cong refl) (simp add: at_def at_cols_def)
  finally show ?thesis using fs by simp
qed

lemma reserve_fruit: "reserve_ht env_fruit (htable_empty 2) 0 = Some (Inr (True, fruit16))"
  by (simp add: htable_empty_2 reserve_ht_def Let_def round16_def env_fruit_def divy_buffer_def
        with_cols_def col_divy_def rehash_def memset_slots_def fruit16_def nums)

lemma built_fruit: "built env_fruit fruit16"
  by (simp add: built_def soa_wf_def tidy_def fruit16_def nth_append nums)

lemma has_empty_iff:
  "hashcapacity s \<le> length (hashmap s) \<Longrightarrow>
   has_empty s \<longleftrightarrow> (\<exists>p<hashcapacity s. hashmap s ! p = INDEXNUL)"
  by (auto simp add: has_empty_def in_set_conv_nth)

lemma sound_find:
  assumes snd: "sound e s" and he: "has_empty s"
  shows "find_seq e s k (length (probe_rows e s k)) = Some (Inr (probe_rows e s k @ [SIZE_MAX])) \<and>
         distinct (probe_rows e s k) \<and>
         set (probe_rows e s k) = {i. i < mysize s \<and> at 0 s i = Inr k}"
proof -
  let ?n = "mysize s" and ?cap = "hashcapacity s" and ?hm = "hashmap s" and ?cols = "mydata s"
  let ?h = "std_hash e k mod ?cap"
  define f where "f q = ?hm ! probe ?cap ?h q" for q
  define P where "P v \<longleftrightarrow> v \<noteq> INDEXNUL \<and> v \<noteq> INDEXDEL \<and> at 0 s v = Inr k" for v
  from snd have wf: "soa_wf s" and ne: "?cols \<noteq> []" and c33: "mycapacity s < 2 ^ 33"
    and hc: "?cap = 2 * mycapacity s + 3" and hl: "?cap \<le> length ?hm"
    and small: "?n \<le> max_size"
    and val: "\<forall>p<?cap. ?hm ! p = INDEXNUL \<or> ?hm ! p = INDEXDEL \<or> ?hm ! p < ?n"
    and inj: "\<forall>p<?cap. \<forall>q<?cap. ?hm ! p = ?hm ! q \<longrightarrow>
                ?hm ! p = INDEXNUL \<or> ?hm ! p = INDEXDEL \<or> p = q"
    and reach: "\<forall>i<?n. \<exists>m<?cap. ?hm ! probe ?cap (home_slot e s i) m = i \<and>
                  (\<forall>j<m. ?hm ! probe ?cap (home_slot e s i) j \<noteq> INDEXNUL)"
    unfolding sound_def linked_def by blast+
  have room: "?n \<le> mycapacity s" using wf by (simp add: soa_wf_def)
  have od: "odd ?cap" and pos: "0 < ?cap" and c64: "?cap + 1 < 2 ^ 64"
    using hc c33 by simp_all
  have l0: "length (?cols ! 0) = mycapacity s"
    using wf ne by (cases ?cols) (simp_all add: soa_wf_def)
  have nd: "?n < INDEXDEL" "?n < INDEXNUL" using small by (simp_all add: nums)
  have atk: "at 0 s i = Inr (?cols ! 0 ! i)" if "i < ?n" for i
    using that room l0 ne by (simp add: at_def at_cols_def)
  from he hl have "\<exists>p<?cap. ?hm ! p = INDEXNUL" by (simp add: has_empty_iff)
  from first_nul [OF od this, of ?h] obtain N where
    N: "N < ?cap" "f N = INDEXNUL" "\<forall>j<N. f j \<noteq> INDEXNUL"
    unfolding f_def by blast
  have fv: "f q = INDEXNUL \<or> f q = INDEXDEL \<or> f q < ?n" for q
    using val probe_less [OF pos, of ?h q] by (simp add: f_def)
  have slot: "\<exists>m<N. f m = i" if i: "i < ?n" "at 0 s i = Inr k" for i
  proof -
    from i atk have "home_slot e s i = ?h" by (simp add: home_slot_def)
    with reach i(1) obtain m where m: "m < ?cap" "f m = i" "\<forall>j<m. f j \<noteq> INDEXNUL"
      unfolding f_def by auto
    have "m \<noteq> N" using m(2) N(2) i(1) nd by auto
    moreover have "\<not> N < m" using m(3) N(2) by auto
    ultimately have "m < N" by simp
    with m(2) show ?thesis by blast
  qed
  have uniq: "p = q" if "p < ?cap" "q < ?cap" "f p = f q" "f p < ?n" for p q
  proof -
    from inj [rule_format, OF probe_less [OF pos] probe_less [OF pos], of ?h p ?h q] that(3,4) nd
    have "probe ?cap ?h p = probe ?cap ?h q" by (auto simp add: f_def)
    with probe_inj [OF od that(1,2)] show ?thesis by simp
  qed
  have tail: "filter P (map f [N..<?cap]) = []"
  proof -
    have "\<not> P (f q)" if "N \<le> q" "q < ?cap" for q
    proof
      assume "P (f q)"
      with fv [of q] have v: "f q < ?n" "at 0 s (f q) = Inr k" by (auto simp add: P_def)
      from slot [OF this] obtain m where m: "m < N" "f m = f q" by blast
      with uniq [of m q] N(1) that v(1) show False by simp
    qed
    then show ?thesis by (simp add: filter_empty_conv)
  qed
  have "[0..<?cap] = [0..<N] @ [N..<?cap]"
    using N(1) upt_add_eq_append [of 0 N "?cap - N"] by simp
  then have "probe_rows e s k = filter P (map f [0..<N]) @ filter P (map f [N..<?cap])"
    unfolding probe_rows_def P_def f_def by (metis filter_append map_append)
  with tail have pr: "probe_rows e s k = filter P (map f [0..<N])" by simp
  have "filter P (map f [0..<N])
        = filter (\<lambda>v. v \<noteq> INDEXDEL \<and> at_cols 0 ?cols v = Inr k) (map f [0..<N])"
    by (rule filter_cong) (use N(3) in \<open>auto simp add: P_def at_def\<close>)
  with pr have ch: "probe_rows e s k = chain_hits ?hm ?cap ?cols k ?h 0 N"
    by (simp add: chain_hits_def f_def [abs_def])
  have st: "set (probe_rows e s k) = {i. i < ?n \<and> at 0 s i = Inr k}"
  proof (intro set_eqI iffI)
    fix v assume "v \<in> set (probe_rows e s k)"
    then obtain q where "v = f q" "P v" by (auto simp add: pr)
    with fv [of q] show "v \<in> {i. i < ?n \<and> at 0 s i = Inr k}" by (auto simp add: P_def)
  next
    fix i assume "i \<in> {i. i < ?n \<and> at 0 s i = Inr k}"
    then have i: "i < ?n" "at 0 s i = Inr k" by simp_all
    from slot [OF i] obtain m where "m < N" "f m = i" by blast
    moreover have "P i" using i nd by (auto simp add: P_def)
    ultimately show "i \<in> set (probe_rows e s k)" by (auto simp add: pr)
  qed
  have ds: "distinct (probe_rows e s k)"
  proof -
    have "probe_rows e s k = map f (filter (\<lambda>q. P (f q)) [0..<N])"
      by (simp add: pr filter_map comp_def)
    moreover have "inj_on f (set (filter (\<lambda>q. P (f q)) [0..<N]))"
    proof (rule inj_onI)
      fix p q assume "p \<in> set (filter (\<lambda>q. P (f q)) [0..<N])"
        "q \<in> set (filter (\<lambda>q. P (f q)) [0..<N])" "f p = f q"
      then have "p < N" "q < N" "P (f p)" "f p = f q" by simp_all
      with fv [of p] uniq [of p q] N(1) show "p = q" by (auto simp add: P_def)
    qed
    ultimately show ?thesis by (simp add: distinct_map)
  qed
  have fs: "find_seq e s k (length (probe_rows e s k)) = Some (Inr (probe_rows e s k @ [SIZE_MAX]))"
  proof (cases "?n = 0")
    case True
    with st have "probe_rows e s k = []" by simp
    with True show ?thesis by (simp add: find_seq_def find_ht_def)
  next
    case False
    have rd: "\<forall>q<N. ?hm ! probe ?cap ?h q \<noteq> INDEXDEL \<longrightarrow>
                (\<exists>k. at_cols 0 ?cols (?hm ! probe ?cap ?h q) = Inr k)"
    proof (intro allI impI)
      fix q assume "q < N" "?hm ! probe ?cap ?h q \<noteq> INDEXDEL"
      with N(3) fv [of q] have "f q < ?n" by (auto simp add: f_def)
      with room l0 ne show "\<exists>k. at_cols 0 ?cols (?hm ! probe ?cap ?h q) = Inr k"
        by (simp add: at_cols_def f_def)
    qed
    from N have N': "?hm ! probe ?cap ?h N = INDEXNUL" "\<forall>q<N. ?hm ! probe ?cap ?h q \<noteq> INDEXNUL"
      by (simp_all add: f_def)
    show ?thesis
      unfolding ch by (rule find_seq_chain [OF pos c64 hl N' rd refl refl refl False refl])
  qed
  from fs ds st show ?thesis by simp
qed

lemma linked_has_open:
  assumes "linked hm cap hom n" "n < cap"
  shows "\<exists>p<cap. hm ! p = INDEXNUL \<or> hm ! p = INDEXDEL"
proof (rule ccontr)
  assume "\<not> (\<exists>p<cap. hm ! p = INDEXNUL \<or> hm ! p = INDEXDEL)"
  then have nn: "\<And>p. p < cap \<Longrightarrow> hm ! p \<noteq> INDEXNUL \<and> hm ! p \<noteq> INDEXDEL" by blast
  have inj: "inj_on (\<lambda>p. hm ! p) {..<cap}"
    using assms(1) nn unfolding linked_def inj_on_def by (metis lessThan_iff)
  have "(\<lambda>p. hm ! p) ` {..<cap} \<subseteq> {..<n}"
    using assms(1) nn unfolding linked_def by auto
  then have "card ((\<lambda>p. hm ! p) ` {..<cap}) \<le> n"
    by (metis card_lessThan card_mono finite_lessThan)
  with inj have "cap \<le> n" by (simp add: card_image)
  with assms(2) show False by simp
qed

lemma first_open:
  assumes "odd cap" "\<exists>p<cap. hm ! p = INDEXNUL \<or> hm ! p = INDEXDEL"
  shows "\<exists>M<cap. (hm ! probe cap h M = INDEXNUL \<or> hm ! probe cap h M = INDEXDEL) \<and>
               (\<forall>j<M. hm ! probe cap h j \<noteq> INDEXNUL \<and> hm ! probe cap h j \<noteq> INDEXDEL)"
proof -
  let ?O = "\<lambda>m. hm ! probe cap h m = INDEXNUL \<or> hm ! probe cap h m = INDEXDEL"
  from assms(2) obtain p where p: "p < cap" "hm ! p = INDEXNUL \<or> hm ! p = INDEXDEL" by blast
  from probe_surj [OF assms(1) p(1), of h] obtain m where m: "m < cap" "probe cap h m = p" by blast
  with p have "\<exists>m. ?O m" by auto
  then obtain M where M: "?O M" "\<forall>j<M. \<not> ?O j"
    using exists_least_iff [of ?O] by blast
  have "?O m" using m p by simp
  with M(2) have "M \<le> m" by (metis not_le)
  with m(1) have "M < cap" by simp
  with M show ?thesis by blast
qed

lemma linked_cong:
  assumes "linked hm cap hom n" "\<And>i. i < n \<Longrightarrow> hom' i = hom i"
  shows "linked hm cap hom' n"
  using assms unfolding linked_def by simp

lemma linked_place:
  assumes t: "linked hm cap hom n"
    and len: "cap \<le> length hm" and n: "n < INDEXDEL"
    and M: "M < cap" "hm ! probe cap (hom n) M = INDEXNUL \<or> hm ! probe cap (hom n) M = INDEXDEL"
      "\<forall>j<M. hm ! probe cap (hom n) j \<noteq> INDEXNUL"
  shows "linked (hm[probe cap (hom n) M := n]) cap hom (Suc n)"
proof -
  let ?s = "probe cap (hom n) M" and ?hm = "hm[probe cap (hom n) M := n]"
  have pos: "0 < cap" using M(1) by simp
  have sl: "?s < length hm" using probe_in [OF pos len] .
  have nn: "n \<noteq> INDEXNUL" "n \<noteq> INDEXDEL" using n by (simp_all add: nums)
  have val: "\<And>p. p < cap \<Longrightarrow> hm ! p = INDEXNUL \<or> hm ! p = INDEXDEL \<or> hm ! p < n"
    using t unfolding linked_def by blast
  have inj: "\<And>p q. p < cap \<Longrightarrow> q < cap \<Longrightarrow> hm ! p = hm ! q \<Longrightarrow>
               hm ! p = INDEXNUL \<or> hm ! p = INDEXDEL \<or> p = q"
    using t unfolding linked_def by blast
  have upd: "\<And>p. p < cap \<Longrightarrow> ?hm ! p = (if p = ?s then n else hm ! p)"
    using len by (simp add: nth_list_update)
  have keep: "\<And>p. p < cap \<Longrightarrow> hm ! p \<noteq> INDEXNUL \<Longrightarrow> ?hm ! p \<noteq> INDEXNUL"
    using upd nn by auto
  have same: "\<And>p. p < cap \<Longrightarrow> hm ! p < n \<Longrightarrow> ?hm ! p = hm ! p"
    using upd M(2) n by (auto simp add: nums)
  show ?thesis
    unfolding linked_def
  proof (intro conjI allI impI)
    fix p assume "p < cap"
    with val [of p] upd [of p] show "?hm ! p = INDEXNUL \<or> ?hm ! p = INDEXDEL \<or> ?hm ! p < Suc n"
      by auto
  next
    fix p q assume pq: "p < cap" "q < cap" "?hm ! p = ?hm ! q"
    show "?hm ! p = INDEXNUL \<or> ?hm ! p = INDEXDEL \<or> p = q"
    proof (cases "p = ?s"; cases "q = ?s")
      assume "p = ?s" "q \<noteq> ?s"
      with pq upd [of p] upd [of q] val [of q] nn show ?thesis by auto
    next
      assume "p \<noteq> ?s" "q = ?s"
      with pq upd [of p] upd [of q] val [of p] nn show ?thesis by auto
    next
      assume "p \<noteq> ?s" "q \<noteq> ?s"
      with pq upd [of p] upd [of q] inj [of p q] show ?thesis by auto
    qed simp
  next
    fix i assume "i < Suc n"
    show "\<exists>m<cap. ?hm ! probe cap (hom i) m = i \<and> (\<forall>j<m. ?hm ! probe cap (hom i) j \<noteq> INDEXNUL)"
    proof (cases "i = n")
      case True
      have "\<forall>j<M. ?hm ! probe cap (hom n) j \<noteq> INDEXNUL"
        using M(3) keep probe_less [OF pos] by blast
      moreover have "?hm ! ?s = n" using sl by simp
      ultimately show ?thesis using True M(1) by blast
    next
      case False
      with \<open>i < Suc n\<close> have i: "i < n" by simp
      from t i obtain m where m: "m < cap" "hm ! probe cap (hom i) m = i"
        and b: "\<forall>j<m. hm ! probe cap (hom i) j \<noteq> INDEXNUL"
        unfolding linked_def by blast
      have "?hm ! probe cap (hom i) m = i"
        using same [OF probe_less [OF pos], of "hom i" m] m(2) i by simp
      moreover have "\<forall>j<m. ?hm ! probe cap (hom i) j \<noteq> INDEXNUL"
        using b keep probe_less [OF pos] by blast
      ultimately show ?thesis using m(1) by blast
    qed
  qed
qed

lemma insert_ht_sound:
  assumes b: "sound e s" and room: "mysize s < mycapacity s" and small: "mysize s < max_size"
    and ar: "Suc (length items) = length (mydata s)"
  shows "\<exists>s'. insert_ht e s key items = Some (Inr (True, s')) \<and> sound e s' \<and>
              mysize s' = Suc (mysize s) \<and> mycapacity s' = mycapacity s \<and>
              length (mydata s') = length (mydata s) \<and>
              (\<forall>i<mysize s. row_of s' i = row_of s i) \<and>
              row_of s' (mysize s) = map Inr (key # items)"
proof -
  let ?n = "mysize s" and ?cap = "hashcapacity s" and ?hm = "hashmap s" and ?cols = "mydata s"
  let ?h = "std_hash e key mod ?cap"
  from b have wf: "soa_wf s" and ne: "?cols \<noteq> []" and c33: "mycapacity s < 2 ^ 33"
    and hc: "?cap = 2 * mycapacity s + 3" and hl: "?cap \<le> length ?hm"
    and t: "linked ?hm ?cap (home_slot e s) ?n"
    unfolding sound_def by blast+
  have od: "odd ?cap" and pos: "0 < ?cap" and c64: "?cap + 1 < 2 ^ 64" and ncap: "?n < ?cap"
    using hc c33 room by simp_all
  have n32: "?n < INDEXDEL"
    using small by (simp_all add: nums)
  from first_open [OF od linked_has_open [OF t ncap], of ?h] obtain M where
    M: "M < ?cap" "?hm ! probe ?cap ?h M = INDEXNUL \<or> ?hm ! probe ?cap ?h M = INDEXDEL"
      "\<forall>j<M. ?hm ! probe ?cap ?h j \<noteq> INDEXNUL \<and> ?hm ! probe ?cap ?h j \<noteq> INDEXDEL"
    by blast
  let ?s' = "placed s (key # items) (probe ?cap ?h M)"
  note ins = insert_ht_placed [OF wf room small ar pos c64 hl M(2,3)]
  note pf = placed_fields [OF wf ne room ar, of key "probe ?cap ?h M"]
  have hn: "home_slot e ?s' ?n = ?h" by (simp add: home_slot_def pf)
  have "linked ?hm ?cap (home_slot e ?s') ?n"
    by (rule linked_cong [OF t]) (simp add: home_slot_def pf)
  with linked_place [of ?hm ?cap "home_slot e ?s'" ?n M] hl n32 M hn
  have "linked (?hm[probe ?cap ?h M := ?n]) ?cap (home_slot e ?s') (Suc ?n)" by simp
  with pf(1-6) ne c33 hc hl small have "sound e ?s'"
    unfolding sound_def by auto
  with ins pf show ?thesis by blast
qed

lemma insert_all_sound:
  assumes "sound e s0" "mysize s0 + length rs \<le> mycapacity s0"
    "mysize s0 + length rs \<le> max_size"
    "\<forall>r\<in>set rs. Suc (length (snd r)) = length (mydata s0)"
  shows "\<exists>s. insert_all e s0 rs = Some (Inr (True, s)) \<and> sound e s \<and>
             mysize s = mysize s0 + length rs \<and> length (mydata s) = length (mydata s0) \<and>
             (\<forall>i<mysize s0. row_of s i = row_of s0 i) \<and>
             (\<forall>i<length rs. row_of s (mysize s0 + i) = map Inr (fst (rs ! i) # snd (rs ! i)))"
  using assms
proof (induction rs arbitrary: s0)
  case Nil
  then show ?case by simp
next
  case (Cons r rs)
  obtain key items where r: "r = (key, items)" by (cases r)
  from Cons.prems r have room: "mysize s0 < mycapacity s0" and small: "mysize s0 < max_size"
    and ar: "Suc (length items) = length (mydata s0)"
    by simp_all
  from insert_ht_sound [OF Cons.prems(1) room small ar, of key] obtain s1 where
    s1: "insert_ht e s0 key items = Some (Inr (True, s1))" "sound e s1"
      "mysize s1 = Suc (mysize s0)" "mycapacity s1 = mycapacity s0"
      "length (mydata s1) = length (mydata s0)"
      "\<forall>i<mysize s0. row_of s1 i = row_of s0 i"
      "row_of s1 (mysize s0) = map Inr (key # items)"
    by blast
  from Cons.IH [of s1] s1 Cons.prems obtain s where
    s: "insert_all e s1 rs = Some (Inr (True, s))" "sound e s"
      "mysize s = mysize s1 + length rs" "length (mydata s) = length (mydata s1)"
      "\<forall>i<mysize s1. row_of s i = row_of s1 i"
      "\<forall>i<length rs. row_of s (mysize s1 + i) = map Inr (fst (rs ! i) # snd (rs ! i))"
    by auto
  have "row_of s (mysize s0 + i) = map Inr (fst ((r # rs) ! i) # snd ((r # rs) ! i))"
    if "i < length (r # rs)" for i
  proof (cases i)
    case 0
    with s(5) s1(3,7) r show ?thesis by simp
  next
    case (Suc j)
    with that s(6) s1(3) show ?thesis by simp
  qed
  moreover have "row_of s i = row_of s0 i" if "i < mysize s0" for i
    using that s(5) s1(3,6) by simp
  ultimately show ?case
    using s(1,2,3,4) s1(1,3,5) r by simp
qed

lemma locate_slot_chain:
  assumes cap: "0 < cap" "cap + 1 < 2 ^ 64" "cap \<le> length hm"
    and M: "hm ! probe cap h M = target \<or> hm ! probe cap h M = INDEXNUL"
    and full: "\<forall>j<M. hm ! probe cap h j \<noteq> target \<and> hm ! probe cap h j \<noteq> INDEXNUL"
    and h: "h < cap"
  shows "locate_slot hm cap target h =
           Some (Inr (if hm ! probe cap h M = target then Some (probe cap h M) else None))"
proof -
  have "m \<le> M \<Longrightarrow> locate_slot hm cap target (probe cap h 0)
                     = locate_slot hm cap target (probe cap h m)" for m
  proof (induction m)
    case 0
    show ?case by simp
  next
    case (Suc m)
    then have "m < M" by simp
    with full have "hm ! probe cap h m \<noteq> target" "hm ! probe cap h m \<noteq> INDEXNUL" by simp_all
    from locate_slot_step [OF probe_in [OF cap(1,3)] this cap(1)] wrap_probe [OF cap(1,2), of h m]
    have "locate_slot hm cap target (probe cap h m)
          = locate_slot hm cap target (probe cap h (Suc m))" by simp
    with Suc show ?case by simp
  qed
  from this [of M] h have "locate_slot hm cap target h = locate_slot hm cap target (probe cap h M)"
    by simp
  also have "\<dots> = Some (Inr (if hm ! probe cap h M = target then Some (probe cap h M) else None))"
  proof (cases "hm ! probe cap h M = target")
    case True
    with locate_slot_hit [OF probe_in [OF cap(1,3)]] show ?thesis by simp
  next
    case False
    with M locate_slot_nul [OF probe_in [OF cap(1,3)] False] show ?thesis by simp
  qed
  finally show ?thesis .
qed

lemma locate_slot_absent:
  assumes cap: "odd cap" "cap + 1 < 2 ^ 64" "cap \<le> length hm"
    and nul: "\<exists>p<cap. hm ! p = INDEXNUL"
    and none: "\<forall>p<cap. hm ! p \<noteq> target"
    and h: "h < cap"
  shows "locate_slot hm cap target h = Some (Inr None)"
proof -
  have pos: "0 < cap" using h by simp
  from first_nul [OF cap(1) nul, of h] obtain M where
    M: "M < cap" "hm ! probe cap h M = INDEXNUL" "\<forall>j<M. hm ! probe cap h j \<noteq> INDEXNUL"
    by blast
  have nt: "hm ! probe cap h j \<noteq> target" for j
    using none probe_less [OF pos] by blast
  from M(2) have "hm ! probe cap h M = target \<or> hm ! probe cap h M = INDEXNUL" ..
  from locate_slot_chain [OF pos cap(2,3) this _ h] M(3) nt show ?thesis
    by simp
qed

lemma replicate_update_same: "(replicate n x)[i := x] = replicate n x"
proof (rule nth_equalityI)
  fix j assume "j < length ((replicate n x)[i := x])"
  then show "(replicate n x)[i := x] ! j = replicate n x ! j"
    by (cases "i = j") simp_all
qed simp

lemma worn_at_0: "worn_at 0 = table16"
  by (simp add: worn_at_def table16_def replicate_update_same)

lemma worn_insert:
  assumes "j < 35"
  shows "insert_ht env_nat (worn_at j) j [0] = Some (Inr (True, worn_filled j))"
proof -
  have wf: "soa_wf (worn_at j)" by (simp add: soa_wf_def worn_at_def)
  have f: "mysize (worn_at j) = 0" "mycapacity (worn_at j) = 16" "hashcapacity (worn_at j) = 35"
    "length (hashmap (worn_at j)) = 36" "std_hash env_nat = id"
    "mydata (worn_at j) = [(replicate 16 0)[0 := j - 1], replicate 16 0]"
    using assms by (simp_all add: worn_at_def env_nat_def)
  have n: "hashmap (worn_at j) ! j = INDEXNUL"
    using assms by (simp add: worn_at_def nth_append)
  have "insert_ht env_nat (worn_at j) j [0] = Some (Inr (True, placed (worn_at j) [j, 0] j))"
    using insert_ht_placed [of "worn_at j" "[0]" env_nat j 0] wf assms n
    by (simp add: f max_size_def UINT_MAX_def)
  then show ?thesis
    by (simp add: placed_def f replicate_update_same worn_filled_def)
qed

lemma worn_slots_next:
  assumes "j < 35"
  shows "(replicate j a @ replicate (35 - j) b @ r)[j := a]
         = replicate (Suc j) a @ replicate (35 - Suc j) b @ r"
proof -
  from assms have "replicate (35 - j) b = b # replicate (35 - Suc j) b"
    by (metis Suc_diff_Suc replicate_Suc)
  then show ?thesis
    by (simp add: list_update_append replicate_app_Cons_same)
qed

lemma worn_slot:
  "p < 35 \<Longrightarrow> n \<le> 35 \<Longrightarrow> hashmap (worn_at n) ! p = (if p < n then INDEXDEL else INDEXNUL)"
  by (auto simp add: worn_at_def nth_append)

lemma worn_erase:
  assumes "j < 34"
  shows "erase env_nat (worn_filled j) j = Some (Inr (1, worn_at (Suc j)))"
proof -
  let ?s = "worn_filled j"
  let ?hm = "hashmap (worn_at j)"
  define t where "t = ?s\<lparr> hashcursor := j \<rparr>"
  have f: "mycapacity (worn_at j) = 16" "hashcapacity (worn_at j) = 35"
    "length ?hm = 36" "std_hash env_nat = id" "trivial_key env_nat"
    using assms by (simp_all add: worn_at_def env_nat_def)
  have tf: "mysize t = 1" "mycapacity t = 16" "hashcapacity t = 35" "hashcursor t = j"
    "hashmap t = ?hm[j := 0]" "mydata t = [(replicate 16 0)[0 := j], replicate 16 0]"
    by (simp_all add: t_def f worn_filled_def)
  have fl: "find_loop (?hm[j := 0]) 35 [(replicate 16 0)[0 := j], replicate 16 0] j j
            = Some (Inr (j, 0))"
    using find_loop_hit [of j "?hm[j := 0]" "[(replicate 16 0)[0 := j], replicate 16 0]" j 35] assms
    by (simp add: f at_cols_def nums)
  have fnd: "find_ht env_nat ?s j True = Some (Inr (0, t))"
    using assms by (simp add: find_ht_def f fl t_def worn_filled_def)
  have wf: "soa_wf t" by (simp add: soa_wf_def tf)
  have es: "erase_swap t 0 = Inr (t\<lparr> mysize := 0 \<rparr>)"
    using erase_swap_ok [OF wf, of 0] by (simp add: tf)
  have z: "INDEXNUL \<noteq> 0" "INDEXDEL \<noteq> 0" "0 \<noteq> INDEXNUL" "0 \<noteq> INDEXDEL"
    by (simp_all add: nums)
  have dl: "?hm[j := INDEXDEL] = hashmap (worn_at (Suc j))"
    using worn_slots_next [of j INDEXDEL INDEXNUL "[0]"] assms by (simp add: worn_at_def)
  have sl: "hashmap (worn_at (Suc j)) ! p = (if p \<le> j then INDEXDEL else INDEXNUL)" if "p < 35" for p
    using worn_slot [OF that, of "Suc j"] assms by (simp add: less_Suc_eq_le)
  have "\<exists>p<35. hashmap (worn_at (Suc j)) ! p = INDEXNUL"
    using sl [of 34] assms by (intro exI [of _ 34]) simp
  moreover have "\<forall>p<35. hashmap (worn_at (Suc j)) ! p \<noteq> 0"
    using sl by (simp add: nums)
  moreover have "length (hashmap (worn_at (Suc j))) = 36"
    using assms by (simp add: worn_at_def)
  ultimately have ls: "locate_slot (hashmap (worn_at (Suc j))) 35 0 j = Some (Inr None)"
    using assms by (intro locate_slot_absent) simp_all
  have "erase_found env_nat t
        = Some (Inr (1, t\<lparr> mysize := 0, hashmap := hashmap (worn_at (Suc j)) \<rparr>))"
    using assms
    by (simp add: erase_found_def tf f es dl ls at_key_def at_def at_cols_def z)
  moreover have "t\<lparr> mysize := 0, hashmap := hashmap (worn_at (Suc j)) \<rparr> = worn_at (Suc j)"
    by (simp add: t_def worn_at_def worn_filled_def)
  ultimately show ?thesis using fnd by (simp add: erase_def)
qed

lemma churn_all_append:
  "churn_all e s (xs @ ys) =
     (case churn_all e s xs of
        None \<Rightarrow> None
      | Some (Inl x) \<Rightarrow> Some (Inl x)
      | Some (Inr s') \<Rightarrow> churn_all e s' ys)"
  by (induction e s xs rule: churn_all.induct) (auto split: option.splits sum.splits)

lemma churn_worn: "n \<le> 34 \<Longrightarrow> churn_all env_nat table16 (worn_rows n) = Some (Inr (worn_at n))"
proof (induction n)
  case 0
  show ?case by (simp add: worn_rows_def worn_at_0)
next
  case (Suc n)
  then have n: "n < 34" "n < 35" by simp_all
  have "worn_rows (Suc n) = worn_rows n @ [(n, [0])]"
    by (simp add: worn_rows_def)
  with Suc n show ?case
    by (simp add: churn_all_append worn_insert [OF n(2)] worn_erase [OF n(1)])
qed

lemma worn_insert3:
  "insert_all env_nat (worn_at 34) [(34, [12]), (34, [42]), (34, [9001])] = Some (Inr (True, worn3))"
proof -
  have h: "std_hash env_nat = id" by (simp add: env_nat_def)
  show ?thesis
    by (simp add: insert_ht_def worn_at_def h open_slot_hit open_slot_step nth_append
          nth_list_update push_back_def base_push_back_def with_cols_def col_construct_def
          worn3_def nums numeral_2_eq_2 [symmetric])
qed

lemma find_loop_skip:
  assumes cap: "0 < cap" "cap + 1 < 2 ^ 64" "cap \<le> length hm"
    and del: "\<forall>j<q. p \<le> j \<longrightarrow> hm ! probe cap h j = INDEXDEL"
    and pq: "p \<le> q"
  shows "find_loop hm cap cols key (probe cap h p) = find_loop hm cap cols key (probe cap h q)"
  using pq del
proof (induction rule: inc_induct)
  case base
  show ?case by simp
next
  case (step n)
  have "hm ! probe cap h n = INDEXDEL" using step.prems step.hyps by simp
  from find_loop_del [OF probe_in [OF cap(1,3)] this cap(1)] wrap_probe [OF cap(1,2), of h n]
  have "find_loop hm cap cols key (probe cap h n) = find_loop hm cap cols key (probe cap h (Suc n))"
    by simp
  with step show ?case by simp
qed

lemma worn3_find: "find_seq env_nat worn3 34 3 = Some (Inr [0, 1, 2, 0])"
proof -
  define hm where "hm = (replicate 34 INDEXDEL @ [INDEXNUL, 0])[34 := 0, 1 := 1, 3 := 2]"
  define cols where "cols = [(replicate 16 (0::nat))[0 := 34, 1 := 34, 2 := 34],
                             (replicate 16 0)[0 := 12, 1 := 42, 2 := 9001]]"
  have w: "mysize worn3 = 3" "hashcapacity worn3 = 35" "hashmap worn3 = hm" "mydata worn3 = cols"
    "std_hash env_nat = id"
    by (simp_all add: worn3_def hm_def cols_def env_nat_def)
  have l: "length hm = 36" by (simp add: hm_def)
  have v: "hm ! 34 = 0" "hm ! 1 = 1" "hm ! 3 = 2"
    by (simp_all add: hm_def nth_append)
  have d: "hm ! p = INDEXDEL" if "p < 34" "p \<noteq> 1" "p \<noteq> 3" for p
    using that by (simp add: hm_def nth_append)
  have k: "at_cols 0 cols 0 = Inr 34" "at_cols 0 cols 1 = Inr 34" "at_cols 0 cols 2 = Inr 34"
    by (simp_all add: cols_def at_cols_def)
  have z: "(0::nat) \<noteq> INDEXNUL" "(0::nat) \<noteq> INDEXDEL" "(1::nat) \<noteq> INDEXNUL"
    "(1::nat) \<noteq> INDEXDEL" "(2::nat) \<noteq> INDEXNUL" "(2::nat) \<noteq> INDEXDEL"
    by (simp_all add: nums)
  have h1: "find_loop hm 35 cols 34 34 = Some (Inr (34, 0))"
    using find_loop_hit [of 34 hm cols 34 35] by (simp add: l v k z)
  have h2: "find_loop hm 35 cols 34 1 = Some (Inr (1, 1))"
    using find_loop_hit [of 1 hm cols 34 35] by (simp add: l v k z del: One_nat_def)
  have h3: "find_loop hm 35 cols 34 3 = Some (Inr (3, 2))"
    using find_loop_hit [of 3 hm cols 34 35] by (simp add: l v k z)
  have "\<forall>j<32. 0 \<le> j \<longrightarrow> hm ! probe 35 5 j = INDEXDEL"
  proof (intro allI impI)
    fix j :: nat assume "j < 32"
    then have "(5 + 2 * j) mod 35 < 34 \<and> (5 + 2 * j) mod 35 \<noteq> 1 \<and> (5 + 2 * j) mod 35 \<noteq> 3"
      by presburger
    then show "hm ! probe 35 5 j = INDEXDEL"
      by (simp add: probe_def d)
  qed
  from find_loop_skip [of 35 hm 32 0 5 cols 34, OF _ _ _ this]
  have h4: "find_loop hm 35 cols 34 5 = Some (Inr (34, 0))"
    by (simp add: l probe_def h1)
  have c1: "find_ht env_nat worn3 34 True = Some (Inr (0, worn3\<lparr> hashcursor := 34 \<rparr>))"
    by (simp add: find_ht_def w h1)
  have c2: "find_ht env_nat (worn3\<lparr> hashcursor := 34 \<rparr>) 34 False
            = Some (Inr (1, worn3\<lparr> hashcursor := 1 \<rparr>))"
    by (simp add: find_ht_def w hash_inc_def wrap64_def h2 [unfolded One_nat_def])
  have c3: "find_ht env_nat (worn3\<lparr> hashcursor := 1 \<rparr>) 34 False
            = Some (Inr (2, worn3\<lparr> hashcursor := 3 \<rparr>))"
    by (simp add: find_ht_def w hash_inc_def wrap64_def h3)
  have c4: "find_ht env_nat (worn3\<lparr> hashcursor := 3 \<rparr>) 34 False
            = Some (Inr (0, worn3\<lparr> hashcursor := 34 \<rparr>))"
    by (simp add: find_ht_def w hash_inc_def wrap64_def h4)
  have "find_seq env_nat worn3 34 (Suc (Suc (Suc 0))) = Some (Inr [0, 1, 2, 0])"
    by (simp add: find_seq_def c1 c2 c3 [unfolded One_nat_def] c4)
  then show ?thesis
    by (simp only: numeral_3_eq_3)
qed

lemma tidy_linked:
  assumes "tidy hm cap key hom n"
  shows "linked hm cap hom n"
  unfolding linked_def
proof (intro conjI allI impI)
  fix i assume "i < n"
  with assms show "\<exists>m<cap. hm ! probe cap (hom i) m = i \<and> (\<forall>j<m. hm ! probe cap (hom i) j \<noteq> INDEXNUL)"
    unfolding tidy_def by blast
qed (use assms in \<open>auto simp add: tidy_def\<close>)

lemma built_sound:
  assumes "built e s"
  shows "sound e s" and "has_empty s"
proof -
  from assms have wf: "soa_wf s" and c33: "mycapacity s < 2 ^ 33"
    and hc: "hashcapacity s = 2 * mycapacity s + 3" and hl: "hashcapacity s \<le> length (hashmap s)"
    and t: "tidy (hashmap s) (hashcapacity s) (\<lambda>i. mydata s ! 0 ! i)
              (\<lambda>i. std_hash e (mydata s ! 0 ! i) mod hashcapacity s) (mysize s)"
    unfolding built_def by blast+
  from tidy_linked [OF t] have "linked (hashmap s) (hashcapacity s) (home_slot e s) (mysize s)"
    by (simp add: home_slot_def [abs_def])
  with assms show "sound e s"
    unfolding built_def sound_def by blast
  have "mysize s < hashcapacity s" using wf hc by (simp add: soa_wf_def)
  from tidy_has_nul [OF t this] hl show "has_empty s"
    by (simp add: has_empty_iff)
qed

lemma built_probe_rows:
  assumes b: "built e s"
  shows "probe_rows e s k = rows_with s k"
proof -
  from sound_find [OF built_sound [OF b], of k] have
    P: "find_seq e s k (length (probe_rows e s k)) = Some (Inr (probe_rows e s k @ [SIZE_MAX]))"
      "distinct (probe_rows e s k)"
      "set (probe_rows e s k) = {i. i < mysize s \<and> at 0 s i = Inr k}"
    by simp_all
  have d: "distinct (rows_with s k)" by (simp add: rows_with_def)
  have "set (rows_with s k) = {i. i < mysize s \<and> at 0 s i = Inr k}"
    by (auto simp add: rows_with_def)
  with P(3) have "card (set (rows_with s k)) = card (set (probe_rows e s k))" by simp
  with distinct_card [OF d] distinct_card [OF P(2)]
  have len: "length (probe_rows e s k) = length (rows_with s k)" by simp
  from P(1) have "find_seq e s k (length (rows_with s k))
                  = Some (Inr (probe_rows e s k @ [SIZE_MAX]))"
    by (simp only: len)
  with built_find [OF b, of k] show ?thesis by simp
qed

text \<open>
  C1, as amended. Take a table that satisfies the slot-reachability invariant (it may hold
  rows and tombstones already) and insert rows into it without reallocation: every insert
  succeeds, the rows are stored in order behind the old ones and the invariant holds again.
  If then at least one slot is empty, for every key \<open>k\<close> the call \<^verbatim>\<open>find(k, true)\<close>
  followed by \<^verbatim>\<open>find(k, false)\<close> calls returns the rows with key \<open>k\<close> in probe order,
  each exactly once and no other row, and after the last of them \<open>SIZE_MAX\<close>. If nothing
  was erased from the table since \<^verbatim>\<open>htable::reserve\<close> allocated it (\<open>built\<close>), a slot is
  empty and the probe order of the rows of a key is the order of their insertion. (The
  claim said so for every table, also for one with no empty slot.)
\<close>

theorem find_enumerates_key:
  assumes "sound e s0" and "mysize s0 + length rs \<le> mycapacity s0"
    and "mysize s0 + length rs \<le> max_size"
    and "\<forall>r\<in>set rs. Suc (length (snd r)) = length (mydata s0)"
  shows "\<exists>s. insert_all e s0 rs = Some (Inr (True, s)) \<and> sound e s \<and>
             mysize s = mysize s0 + length rs \<and>
             (\<forall>i<mysize s0. row_of s i = row_of s0 i) \<and>
             (\<forall>i<length rs. row_of s (mysize s0 + i) = map Inr (fst (rs ! i) # snd (rs ! i))) \<and>
             (has_empty s \<longrightarrow>
                (\<forall>k. find_seq e s k (length (probe_rows e s k))
                       = Some (Inr (probe_rows e s k @ [SIZE_MAX])) \<and>
                     distinct (probe_rows e s k) \<and>
                     set (probe_rows e s k) = {i. i < mysize s \<and> at 0 s i = Inr k})) \<and>
             (built e s0 \<longrightarrow> has_empty s \<and> (\<forall>k. probe_rows e s k = rows_with s k))"
proof -
  from insert_all_sound [OF assms] obtain s where
    s: "insert_all e s0 rs = Some (Inr (True, s))" "sound e s"
    "mysize s = mysize s0 + length rs"
    "\<forall>i<mysize s0. row_of s i = row_of s0 i"
    "\<forall>i<length rs. row_of s (mysize s0 + i) = map Inr (fst (rs ! i) # snd (rs ! i))"
    by blast
  have B: "built e s0 \<longrightarrow> has_empty s \<and> (\<forall>k. probe_rows e s k = rows_with s k)"
  proof (intro impI conjI allI)
    assume "built e s0"
    from insert_all_rows [OF this assms(2-4)] obtain t where
      "insert_all e s0 rs = Some (Inr (True, t))" "built e t" by blast
    with s(1) have b: "built e s" by simp
    from built_sound(2) [OF b] show "has_empty s" .
    fix k from built_probe_rows [OF b] show "probe_rows e s k = rows_with s k" .
  qed
  have F: "has_empty s \<longrightarrow>
             (\<forall>k. find_seq e s k (length (probe_rows e s k))
                       = Some (Inr (probe_rows e s k @ [SIZE_MAX])) \<and>
                     distinct (probe_rows e s k) \<and>
                     set (probe_rows e s k) = {i. i < mysize s \<and> at 0 s i = Inr k})"
  proof (intro impI allI)
    fix k assume "has_empty s"
    from sound_find [OF s(2) this, of k]
    show "find_seq e s k (length (probe_rows e s k))
                       = Some (Inr (probe_rows e s k @ [SIZE_MAX])) \<and>
                     distinct (probe_rows e s k) \<and>
                     set (probe_rows e s k) = {i. i < mysize s \<and> at 0 s i = Inr k}" .
  qed
  show ?thesis
    by (rule exI [of _ s], intro conjI) (rule s F B)+
qed

text \<open>
  The table of the test program: after the rows banana 12, cherry 7, banana 42 and
  banana 9001 the calls for banana return the rows 0, 2, 3, with the payloads 12, 42, 9001,
  and then \<open>SIZE_MAX\<close>.
\<close>

theorem find_enumerates_key_witness:
  "reserve_ht env_fruit (htable_empty 2) 0 = Some (Inr (True, fruit16)) \<and>
   sound env_fruit fruit16 \<and> built env_fruit fruit16 \<and>
   (\<exists>s. insert_all env_fruit fruit16 fruit = Some (Inr (True, s)) \<and> has_empty s \<and>
        probe_rows env_fruit s (Str ''banana'') = [0, 2, 3] \<and>
        find_seq env_fruit s (Str ''banana'') 3 = Some (Inr [0, 2, 3, SIZE_MAX]) \<and>
        map (at 1 s) [0, 2, 3] = [Inr (Num 12), Inr (Num 42), Inr (Num 9001)])"
proof -
  have sz: "mysize fruit16 = 0" "mycapacity fruit16 = 16" "length (mydata fruit16) = 2"
    by (simp_all add: fruit16_def)
  have pre: "mysize fruit16 + length fruit \<le> mycapacity fruit16"
    "mysize fruit16 + length fruit \<le> max_size"
    "\<forall>r\<in>set fruit. Suc (length (snd r)) = length (mydata fruit16)"
    by (simp_all add: sz fruit_def max_size_def UINT_MAX_def)
  note snd = built_sound(1) [OF built_fruit]
  from find_enumerates_key [OF snd pre] obtain s where
    ins: "insert_all env_fruit fruit16 fruit = Some (Inr (True, s))"
    and n0: "mysize s = mysize fruit16 + length fruit"
    and rows0: "\<forall>i<length fruit. row_of s (mysize fruit16 + i)
                  = map Inr (fst (fruit ! i) # snd (fruit ! i))"
    and G0: "has_empty s \<longrightarrow>
                (\<forall>k. find_seq env_fruit s k (length (probe_rows env_fruit s k))
                       = Some (Inr (probe_rows env_fruit s k @ [SIZE_MAX])) \<and>
                     distinct (probe_rows env_fruit s k) \<and>
                     set (probe_rows env_fruit s k) = {i. i < mysize s \<and> at 0 s i = Inr k})"
    and B0: "built env_fruit fruit16 \<longrightarrow>
               has_empty s \<and> (\<forall>k. probe_rows env_fruit s k = rows_with s k)"
    by blast
  from B0 built_fruit have he: "has_empty s"
    and pr: "\<And>k. probe_rows env_fruit s k = rows_with s k"
    by simp_all
  from G0 he have G: "\<And>k. find_seq env_fruit s k (length (probe_rows env_fruit s k))
                 = Some (Inr (probe_rows env_fruit s k @ [SIZE_MAX]))"
    by simp
  have n: "mysize s = 4" using n0 by (simp add: sz fruit_def)
  have rows: "\<forall>i<4. row_of s i = map Inr (fst (fruit ! i) # snd (fruit ! i))"
    using rows0 by (simp add: sz) (simp add: fruit_def)
  have l: "length (row_of s 0) = 2"
    using rows [rule_format, of 0] by (simp add: fruit_def)
  then have l: "length (mydata s) = 2" by (simp add: row_of_def)
  have r: "at 0 s 0 = Inr (Str ''banana'')" "at 1 s 0 = Inr (Num 12)"
    "at 0 s 1 = Inr (Str ''cherry'')" "at 1 s 1 = Inr (Num 7)"
    "at 0 s 2 = Inr (Str ''banana'')" "at 1 s 2 = Inr (Num 42)"
    "at 0 s 3 = Inr (Str ''banana'')" "at 1 s 3 = Inr (Num 9001)"
    using rows [rule_format, of 0] rows [rule_format, of 1] rows [rule_format, of 2]
      rows [rule_format, of 3]
    by (simp_all add: fruit_def row_of_def l upt_rec)
  have rw: "rows_with s (Str ''banana'') = [0, 2, 3]"
    using r by (simp add: rows_with_def n upt_rec numeral_2_eq_2 numeral_3_eq_3)
  with pr have p: "probe_rows env_fruit s (Str ''banana'') = [0, 2, 3]" by simp
  with G [of "Str ''banana''"]
  have fs: "find_seq env_fruit s (Str ''banana'') 3 = Some (Inr [0, 2, 3, SIZE_MAX])"
    by (simp add: numeral_3_eq_3)
  from ins he p fs r reserve_fruit snd built_fruit show ?thesis by auto
qed

lemma worn_sound:
  assumes "n \<le> 35"
  shows "sound env_nat (worn_at n)"
proof -
  have f: "soa_wf (worn_at n)" "mysize (worn_at n) = 0" "mycapacity (worn_at n) = 16"
    "hashcapacity (worn_at n) = 35" "length (hashmap (worn_at n)) = 36" "mydata (worn_at n) \<noteq> []"
    using assms by (simp_all add: worn_at_def soa_wf_def)
  have "linked (hashmap (worn_at n)) 35 (home_slot env_nat (worn_at n)) 0"
    unfolding linked_def using worn_slot [OF _ assms] by auto
  with f show ?thesis
    by (simp add: sound_def max_size_def UINT_MAX_def)
qed

text \<open>
  C1 fails on a table without an empty slot. Inserting and erasing the keys \<open>0 .. 33\<close> one
  after the other leaves 34 tombstones in the 35 slots of a table of row capacity 16. After
  three inserts of rows with key 34 (no erase, no reallocation) no slot is empty, and
  \<^verbatim>\<open>find(34, true)\<close> followed by three \<^verbatim>\<open>find(34, false)\<close> returns the rows 0, 1, 2 and
  then row 0 again instead of \<open>SIZE_MAX\<close>.
\<close>

theorem find_cycles_on_worn_table_counterexample:
  "reserve_ht env_nat (htable_empty 2) 0 = Some (Inr (True, table16)) \<and>
   churn_all env_nat table16 (worn_rows 34) = Some (Inr (worn_at 34)) \<and>
   insert_all env_nat (worn_at 34) [(34, [12]), (34, [42]), (34, [9001])]
     = Some (Inr (True, worn3)) \<and>
   sound env_nat worn3 \<and> \<not> has_empty worn3 \<and>
   find_seq env_nat worn3 34 3 = Some (Inr [0, 1, 2, 0])"
proof -
  have pre: "mysize (worn_at 34) + length [(34, [12]), (34, [42]), (34, [9001::nat])]
               \<le> mycapacity (worn_at 34)"
    "mysize (worn_at 34) + length [(34, [12]), (34, [42]), (34, [9001::nat])] \<le> max_size"
    "\<forall>r\<in>set [(34::nat, [12]), (34, [42]), (34, [9001::nat])].
        Suc (length (snd r)) = length (mydata (worn_at 34))"
    by (simp_all add: worn_at_def max_size_def UINT_MAX_def)
  have "sound env_nat (worn_at 34)" by (rule worn_sound) simp
  from insert_all_sound [OF this pre] worn_insert3
  have snd: "sound env_nat worn3" by auto
  have "hashcapacity worn3 \<le> length (hashmap worn3)"
    by (simp add: worn3_def)
  then have "\<not> has_empty worn3"
    by (auto simp add: has_empty_iff worn3_def nth_list_update nth_append nums)
  with snd reserve_ht_empty_2 churn_worn [of 34] worn_insert3 worn3_find show ?thesis
    by simp
qed

subsection \<open>Claim C2: \<^verbatim>\<open>erase_found\<close>\<close>

lemma locate_slot_repair:
  assumes t: "linked hm cap hom n" and od: "odd cap" and c64: "cap + 1 < 2 ^ 64"
    and len: "cap \<le> length hm" and n: "0 < n" "n < INDEXDEL"
    and nul: "i = n - 1 \<longrightarrow> (\<exists>q<cap. hm ! q = INDEXNUL)"
    and c: "c < cap" "hm ! c = i" "i < n"
    and m: "m < cap" "hm ! probe cap (hom (n - 1)) m = n - 1"
      "\<forall>j<m. hm ! probe cap (hom (n - 1)) j \<noteq> INDEXNUL"
    and h: "hom (n - 1) < cap"
  shows "locate_slot (hm[c := INDEXDEL]) cap (n - 1) (hom (n - 1))
         = Some (Inr (if i = n - 1 then None else Some (probe cap (hom (n - 1)) m)))"
proof -
  let ?h = "hom (n - 1)" and ?hm = "hm[c := INDEXDEL]"
  have pos: "0 < cap" using c(1) by simp
  have nn: "n - 1 \<noteq> INDEXNUL" "n - 1 \<noteq> INDEXDEL" "i \<noteq> INDEXNUL" "i \<noteq> INDEXDEL"
    using n c(3) by (simp_all add: nums)
  have inj: "\<And>p q. p < cap \<Longrightarrow> q < cap \<Longrightarrow> hm ! p = hm ! q \<Longrightarrow>
               hm ! p = INDEXNUL \<or> hm ! p = INDEXDEL \<or> p = q"
    using t unfolding linked_def by blast
  have upd: "\<And>p. p < cap \<Longrightarrow> ?hm ! p = (if p = c then INDEXDEL else hm ! p)"
    using len by (simp add: nth_list_update)
  have l': "cap \<le> length ?hm" using len by simp
  show ?thesis
  proof (cases "i = n - 1")
    case True
    have "\<forall>p<cap. ?hm ! p \<noteq> n - 1"
    proof (intro allI impI)
      fix p assume p: "p < cap"
      show "?hm ! p \<noteq> n - 1"
      proof (cases "p = c")
        case True
        with upd [OF p] nn show ?thesis by simp
      next
        case False
        with inj [OF p c(1)] c(2) \<open>i = n - 1\<close> nn upd [OF p] show ?thesis by auto
      qed
    qed
    moreover from nul True obtain q where q: "q < cap" "hm ! q = INDEXNUL" by blast
    with c(2) nn have "q \<noteq> c" by auto
    with q upd [of q] have "\<exists>q<cap. ?hm ! q = INDEXNUL" by auto
    ultimately show ?thesis
      using locate_slot_absent [OF od c64 l', of "n - 1" ?h] h True by simp
  next
    case False
    let ?p = "probe cap ?h m"
    have pc: "?p < cap" using pos by simp
    have pne: "?p \<noteq> c" using m(2) c(2) False by auto
    have hit: "?hm ! ?p = n - 1" using upd [OF pc] pne m(2) by simp
    have before: "\<forall>j<m. ?hm ! probe cap ?h j \<noteq> n - 1 \<and> ?hm ! probe cap ?h j \<noteq> INDEXNUL"
    proof (intro allI impI)
      fix j assume j: "j < m"
      have jc: "probe cap ?h j < cap" using pos by simp
      have a: "?hm ! probe cap ?h j \<noteq> INDEXNUL"
        using upd [OF jc] m(3) j by (auto simp add: nums)
      have "hm ! probe cap ?h j \<noteq> n - 1"
      proof
        assume e: "hm ! probe cap ?h j = n - 1"
        with inj [OF jc pc] m(2) nn have "probe cap ?h j = ?p" by auto
        with probe_inj [OF od _ m(1) this] j m(1) show False by simp
      qed
      with upd [OF jc] nn have "?hm ! probe cap ?h j \<noteq> n - 1" by auto
      with a show "?hm ! probe cap ?h j \<noteq> n - 1 \<and> ?hm ! probe cap ?h j \<noteq> INDEXNUL" by simp
    qed
    from hit have "?hm ! ?p = n - 1 \<or> ?hm ! ?p = INDEXNUL" ..
    from locate_slot_chain [OF pos c64 l' this before h] hit False show ?thesis by simp
  qed
qed

lemma linked_erase:
  assumes t: "linked hm cap hom n" and od: "odd cap"
    and len: "cap \<le> length hm" and n: "0 < n" "n < INDEXDEL"
    and c: "c < cap" "hm ! c = i" "i < n"
    and m: "m < cap" "hm ! probe cap (hom (n - 1)) m = n - 1"
      "\<forall>j<m. hm ! probe cap (hom (n - 1)) j \<noteq> INDEXNUL"
    and hom': "\<forall>j<n - 1. hom' j = hom (if j = i then n - 1 else j)"
    and hm': "hm' = (if i = n - 1 then hm[c := INDEXDEL]
                     else hm[c := INDEXDEL, probe cap (hom (n - 1)) m := i])"
  shows "linked hm' cap hom' (n - 1)" and "\<forall>q<cap. hm ! q = INDEXNUL \<longrightarrow> hm' ! q = INDEXNUL"
    and "hm' ! c = INDEXDEL"
proof -
  let ?p = "probe cap (hom (n - 1)) m"
  have pos: "0 < cap" using c(1) by simp
  have nn: "n - 1 \<noteq> INDEXNUL" "n - 1 \<noteq> INDEXDEL" "i \<noteq> INDEXNUL" "i \<noteq> INDEXDEL"
    using n c(3) by (simp_all add: nums)
  have val: "\<And>p. p < cap \<Longrightarrow> hm ! p = INDEXNUL \<or> hm ! p = INDEXDEL \<or> hm ! p < n"
    using t unfolding linked_def by blast
  have inj: "\<And>p q. p < cap \<Longrightarrow> q < cap \<Longrightarrow> hm ! p = hm ! q \<Longrightarrow>
               hm ! p = INDEXNUL \<or> hm ! p = INDEXDEL \<or> p = q"
    using t unfolding linked_def by blast
  have pc: "?p < cap" using pos by simp
  have pcase: "i = n - 1 \<longleftrightarrow> ?p = c"
    using inj [OF pc c(1)] m(2) c(2) nn by auto
  have upd: "hm' ! q = (if q = c then INDEXDEL else if q = ?p then i else hm ! q)" if "q < cap" for q
    using that len pcase by (auto simp add: hm' nth_list_update)
  have only_c: "q = c" if "q < cap" "hm ! q = i" for q
    using inj [OF that(1) c(1)] that(2) c(2) nn by auto
  have only_p: "q = ?p" if "q < cap" "hm ! q = n - 1" for q
    using inj [OF that(1) pc] that(2) m(2) nn by auto
  show "hm' ! c = INDEXDEL" using upd [OF c(1)] by simp
  show "\<forall>q<cap. hm ! q = INDEXNUL \<longrightarrow> hm' ! q = INDEXNUL"
    using upd c(2) m(2) nn by auto
  have keepnn: "hm' ! q \<noteq> INDEXNUL" if "q < cap" "hm ! q \<noteq> INDEXNUL" for q
    using upd [OF that(1)] that(2) nn by (auto simp add: nums)
  have same: "hm' ! q = hm ! q" if "q < cap" "hm ! q < n - 1" "hm ! q \<noteq> i" for q
  proof -
    have "q \<noteq> c" using that(3) c(2) by auto
    moreover have "q \<noteq> ?p" using that(2) m(2) by auto
    ultimately show ?thesis using upd [OF that(1)] by simp
  qed
  show "linked hm' cap hom' (n - 1)"
    unfolding linked_def
  proof (intro conjI allI impI)
    fix q assume q: "q < cap"
    show "hm' ! q = INDEXNUL \<or> hm' ! q = INDEXDEL \<or> hm' ! q < n - 1"
    proof (cases "q = c \<or> q = ?p")
      case True
      with upd [OF q] pcase c(3) show ?thesis by auto
    next
      case False
      with only_p [OF q] have "hm ! q \<noteq> n - 1" by auto
      with val [OF q] upd [OF q] False show ?thesis by auto
    qed
  next
    fix q r assume q: "q < cap" and r: "r < cap" and e: "hm' ! q = hm' ! r"
    show "hm' ! q = INDEXNUL \<or> hm' ! q = INDEXDEL \<or> q = r"
    proof (cases "q = c \<or> r = c")
      case True
      then have "hm' ! q = INDEXDEL \<or> hm' ! r = INDEXDEL"
        using upd [OF q] upd [OF r] by (cases "q = c") simp_all
      with e show ?thesis by simp
    next
      case nc: False
      then have vq: "hm' ! q = (if q = ?p then i else hm ! q)"
        and vr: "hm' ! r = (if r = ?p then i else hm ! r)"
        using upd [OF q] upd [OF r] by simp_all
      show ?thesis
      proof (cases "q = r")
        case False
        show ?thesis
        proof (cases "q = ?p")
          case True
          with False have "r \<noteq> ?p" by simp
          with vq vr e True have "hm ! r = i" by simp
          from only_c [OF r this] nc show ?thesis by simp
        next
          case qp: False
          show ?thesis
          proof (cases "r = ?p")
            case True
            with vq vr e qp have "hm ! q = i" by simp
            from only_c [OF q this] nc show ?thesis by simp
          next
            case rp: False
            with vq vr e qp have "hm ! q = hm ! r" by simp
            from inj [OF q r this] vq qp show ?thesis by simp
          qed
        qed
      qed simp
    qed
  next
    fix j assume j: "j < n - 1"
    show "\<exists>k<cap. hm' ! probe cap (hom' j) k = j \<and> (\<forall>l<k. hm' ! probe cap (hom' j) l \<noteq> INDEXNUL)"
    proof (cases "j = i")
      case True
      with hom' j have h: "hom' j = hom (n - 1)" by simp
      from True j have "i \<noteq> n - 1" by simp
      with pcase have "?p \<noteq> c" by simp
      with upd [OF pc] True have "hm' ! ?p = j" by simp
      moreover have "\<forall>l<m. hm' ! probe cap (hom (n - 1)) l \<noteq> INDEXNUL"
        using m(3) keepnn probe_less [OF pos] by blast
      ultimately show ?thesis using h m(1) by auto
    next
      case False
      with hom' j have h: "hom' j = hom j" by simp
      from j have "j < n" by simp
      with t obtain k where k: "k < cap" "hm ! probe cap (hom j) k = j"
        and b: "\<forall>l<k. hm ! probe cap (hom j) l \<noteq> INDEXNUL"
        unfolding linked_def by blast
      have "hm' ! probe cap (hom j) k = j"
        using same [OF probe_less [OF pos], of "hom j" k] k(2) j False by simp
      moreover have "\<forall>l<k. hm' ! probe cap (hom j) l \<noteq> INDEXNUL"
        using b keepnn probe_less [OF pos] by blast
      ultimately show ?thesis using h k(1) by auto
    qed
  qed
qed

text \<open>
  \<^verbatim>\<open>erase_found\<close> on a table that satisfies the slot-reachability invariant, with the
  cursor on an occupied slot. When the row found is not the last row nothing more is
  needed; when it is the last row, the statement needs an empty slot (for the repair loop
  to end) and a trivially destructible key (for the read of the destructed row).
\<close>

lemma erase_found_sound:
  assumes snd: "sound e s"
    and cur: "hashcursor s < hashcapacity s" "hashmap s ! hashcursor s \<noteq> INDEXNUL"
      "hashmap s ! hashcursor s \<noteq> INDEXDEL"
    and last: "hashmap s ! hashcursor s = mysize s - 1 \<longrightarrow> has_empty s \<and> trivial_key e"
  shows "\<exists>s'. erase_found e s = Some (Inr (1, s')) \<and> mysize s' = mysize s - 1 \<and>
              (\<forall>j<mysize s'. row_of s' j
                   = row_of s (if j = hashmap s ! hashcursor s then mysize s - 1 else j)) \<and>
              hashmap s' ! hashcursor s = INDEXDEL \<and> hashcursor s' = hashcursor s \<and>
              sound e s' \<and> (has_empty s \<longrightarrow> has_empty s')"
proof -
  let ?n = "mysize s" and ?cap = "hashcapacity s" and ?hm = "hashmap s" and ?cols = "mydata s"
  let ?c = "hashcursor s"
  let ?i = "?hm ! ?c"
  let ?h = "home_slot e s (?n - 1)"
  from snd have wf: "soa_wf s" and ne: "?cols \<noteq> []" and c33: "mycapacity s < 2 ^ 33"
    and hc: "?cap = 2 * mycapacity s + 3" and hl: "?cap \<le> length ?hm"
    and small: "?n \<le> max_size"
    and t: "linked ?hm ?cap (home_slot e s) ?n"
    unfolding sound_def by blast+
  have room: "?n \<le> mycapacity s" using wf by (simp add: soa_wf_def)
  have len: "\<And>col. col \<in> set ?cols \<Longrightarrow> length col = mycapacity s"
    using wf by (simp add: soa_wf_def list_all_iff)
  have od: "odd ?cap" and pos: "0 < ?cap" and c64: "?cap + 1 < 2 ^ 64"
    using hc c33 by simp_all
  have nd: "?n < INDEXDEL" using small by (simp add: nums)
  have i: "?i < ?n"
    using t cur unfolding linked_def by blast
  then have n0: "0 < ?n" by simp
  from last hl have nul: "?i = ?n - 1 \<longrightarrow> (\<exists>q<?cap. ?hm ! q = INDEXNUL)"
    by (simp add: has_empty_iff)
  from last i have rd: "?i < ?n - 1 \<or> trivial_key e" by auto
  from t n0 obtain m where m: "m < ?cap" "?hm ! probe ?cap ?h m = ?n - 1"
    "\<forall>j<m. ?hm ! probe ?cap ?h j \<noteq> INDEXNUL"
    unfolding linked_def by (metis diff_less zero_less_one)
  have hh: "?h < ?cap" using pos by (simp add: home_slot_def)
  define cols1 where "cols1 = map (\<lambda>col. col[?i := col ! (?n - 1), ?n - 1 := col ! ?i]) ?cols"
  define s1 where "s1 = s\<lparr> mydata := cols1, mysize := ?n - 1 \<rparr>"
  define hm' where "hm' = (if ?i = ?n - 1 then ?hm[?c := INDEXDEL]
                            else ?hm[?c := INDEXDEL, probe ?cap ?h m := ?i])"
  define s' where "s' = s1\<lparr> hashmap := hm' \<rparr>"
  have es: "erase_swap s ?i = Inr s1"
    using erase_swap_ok [OF wf i] by (simp add: s1_def cols1_def)
  have l1: "length cols1 = length ?cols" by (simp add: cols1_def)
  have cell: "cols1 ! K ! j = (if j = ?n - 1 then ?cols ! K ! ?i
                                else if j = ?i then ?cols ! K ! (?n - 1) else ?cols ! K ! j)"
    and cl: "length (cols1 ! K) = mycapacity s" "length (?cols ! K) = mycapacity s"
    if "K < length ?cols" "j < mycapacity s" for K j
    using that i room len [of "?cols ! K"] by (simp_all add: cols1_def nth_list_update)
  have K0: "0 < length ?cols" using ne by simp
  have "at 0 s1 ?i = Inr (?cols ! 0 ! (?n - 1))"
    using cell [OF K0, of ?i] cl [OF K0, of ?i] i room K0 l1
    by (auto simp add: at_def at_cols_def s1_def)
  with rd have k: "at_key e s1 ?i = Inr (?cols ! 0 ! (?n - 1))"
    by (auto simp add: at_key_def s1_def)
  have f1: "hashmap s1 = ?hm" "hashcursor s1 = ?c" "hashcapacity s1 = ?cap" "mysize s1 = ?n - 1"
    by (simp_all add: s1_def)
  have ls: "locate_slot (?hm[?c := INDEXDEL]) ?cap (?n - 1) ?h
            = Some (Inr (if ?i = ?n - 1 then None else Some (probe ?cap ?h m)))"
    by (rule locate_slot_repair [OF t od c64 hl n0 nd nul cur(1) refl i m hh])
  have ef: "erase_found e s = Some (Inr (1, s'))"
    using cur hl ls
    by (simp add: erase_found_def es k f1 s'_def hm'_def home_slot_def)
  have hom': "\<forall>j<?n - 1. home_slot e s' j = home_slot e s (if j = ?i then ?n - 1 else j)"
  proof (intro allI impI)
    fix j assume "j < ?n - 1"
    with cell [OF K0, of j] room
    have "mydata s' ! 0 ! j = ?cols ! 0 ! (if j = ?i then ?n - 1 else j)"
      by (simp add: s'_def s1_def)
    then show "home_slot e s' j = home_slot e s (if j = ?i then ?n - 1 else j)"
      by (simp add: home_slot_def s'_def s1_def)
  qed
  note le = linked_erase [OF t od hl n0 nd cur(1) refl i m hom' hm'_def]
  have wf': "soa_wf s'"
    using wf room unfolding soa_wf_def list_all_iff
    by (auto simp add: s'_def s1_def cols1_def)
  have "sound e s'"
    using le(1) wf' ne c33 hc hl small l1
    by (auto simp add: sound_def s'_def s1_def hm'_def)
  moreover have "has_empty s \<longrightarrow> has_empty s'"
  proof
    assume "has_empty s"
    with hl have "\<exists>q<?cap. ?hm ! q = INDEXNUL" by (simp add: has_empty_iff)
    with le(2) have "\<exists>q<?cap. hm' ! q = INDEXNUL" by blast
    moreover have "?cap \<le> length hm'" using hl by (simp add: hm'_def)
    ultimately show "has_empty s'"
      using has_empty_iff [of s'] by (simp add: s'_def s1_def)
  qed
  moreover have "\<forall>j<mysize s'. row_of s' j = row_of s (if j = ?i then ?n - 1 else j)"
  proof (intro allI impI)
    fix j assume "j < mysize s'"
    then have j: "j < ?n - 1" by (simp add: s'_def s1_def)
    have jc: "j < mycapacity s" "?n - 1 < mycapacity s" using j room by simp_all
    have "at K s' j = at K s (if j = ?i then ?n - 1 else j)" if "K < length ?cols" for K
      using cell [OF that jc(1)] cl [OF that jc(1)] j jc that l1
      by (simp add: at_def at_cols_def s'_def s1_def)
    then show "row_of s' j = row_of s (if j = ?i then ?n - 1 else j)"
      using l1 by (simp add: row_of_def s'_def s1_def)
  qed
  ultimately show ?thesis
    using ef le(3) by (auto simp add: s'_def s1_def)
qed

lemma find_loop_result:
  assumes "find_loop hm cap cols key c = Some y"
  shows "case y of Inl x \<Rightarrow> True
         | Inr (c', idx) \<Rightarrow> c' < length hm \<and>
             ((hm ! c' = INDEXNUL \<and> idx = SIZE_MAX) \<or>
              (idx = hm ! c' \<and> hm ! c' \<noteq> INDEXNUL \<and> hm ! c' \<noteq> INDEXDEL))"
proof (rule find_loop.raw_induct [where P = "\<lambda>hm cap cols key c y.
         case y of Inl x \<Rightarrow> True
         | Inr (c', idx) \<Rightarrow> c' < length hm \<and>
             ((hm ! c' = INDEXNUL \<and> idx = SIZE_MAX) \<or>
              (idx = hm ! c' \<and> hm ! c' \<noteq> INDEXNUL \<and> hm ! c' \<noteq> INDEXDEL))", OF _ assms])
  fix f :: "nat list \<Rightarrow> nat \<Rightarrow> 'a list list \<Rightarrow> 'a \<Rightarrow> nat \<Rightarrow> (error + nat \<times> nat) option"
    and hm :: "nat list" and cap :: nat and cols :: "'a list list" and key :: 'a and c :: nat
    and y :: "error + nat \<times> nat"
  let ?Q = "\<lambda>hm y. case y of Inl x \<Rightarrow> True
         | Inr (c', idx) \<Rightarrow> c' < length hm \<and>
             ((hm ! c' = INDEXNUL \<and> idx = SIZE_MAX) \<or>
              (idx = hm ! c' \<and> hm ! c' \<noteq> INDEXNUL \<and> hm ! c' \<noteq> INDEXDEL))"
  assume IH: "\<And>hm cap cols key c y. f hm cap cols key c = Some y \<Longrightarrow> ?Q hm y"
    and body: "(if length hm \<le> c then Some (Inl OutOfBounds)
      else if hm ! c = INDEXNUL then Some (Inr (c, SIZE_MAX))
      else if hm ! c = INDEXDEL
      then (case hash_inc cap c of Inl x \<Rightarrow> Some (Inl x) | Inr c' \<Rightarrow> f hm cap cols key c')
      else (case at_cols 0 cols (hm ! c) of
              Inl x \<Rightarrow> Some (Inl x)
            | Inr k \<Rightarrow>
                if k = key then Some (Inr (c, hm ! c))
                else (case hash_inc cap c of
                        Inl x \<Rightarrow> Some (Inl x)
                      | Inr c' \<Rightarrow> f hm cap cols key c'))) = Some y"
  have nxt: "?Q hm y"
    if "(case hash_inc cap c of Inl x \<Rightarrow> Some (Inl x) | Inr c' \<Rightarrow> f hm cap cols key c') = Some y"
  proof (cases "hash_inc cap c")
    case (Inl x)
    with that show ?thesis by auto
  next
    case (Inr c')
    with that have "f hm cap cols key c' = Some y" by simp
    from IH [OF this] show ?thesis .
  qed
  show "?Q hm y"
  proof (cases "length hm \<le> c")
    case True
    with body show ?thesis by auto
  next
    case l: False
    show ?thesis
    proof (cases "hm ! c = INDEXNUL")
      case True
      with body l show ?thesis by auto
    next
      case nn: False
      show ?thesis
      proof (cases "hm ! c = INDEXDEL")
        case True
        with body l nn show ?thesis by (intro nxt) simp
      next
        case nd: False
        show ?thesis
        proof (cases "at_cols 0 cols (hm ! c)")
          case (Inl x)
          with body l nn nd show ?thesis by auto
        next
          case (Inr k)
          show ?thesis
          proof (cases "k = key")
            case True
            with body l nn nd Inr show ?thesis by auto
          next
            case False
            with body l nn nd Inr show ?thesis by (intro nxt) simp
          qed
        qed
      qed
    qed
  qed
qed

text \<open>
  The repair loop does not return when no slot holds the target and none is empty.
\<close>

lemma locate_slot_never:
  assumes "locate_slot hm cap target h = Some y"
  shows "\<not> (cap \<le> length hm \<and> h < cap \<and> (\<forall>p<cap. hm ! p \<noteq> target \<and> hm ! p \<noteq> INDEXNUL))"
proof (rule locate_slot.raw_induct [where P = "\<lambda>hm cap target h y.
         \<not> (cap \<le> length hm \<and> h < cap \<and> (\<forall>p<cap. hm ! p \<noteq> target \<and> hm ! p \<noteq> INDEXNUL))",
         OF _ assms])
  fix f and hm :: "nat list" and cap target h :: nat and y :: "error + nat option"
  assume IH: "\<And>hm cap target h y. f hm cap target h = Some y \<Longrightarrow>
           \<not> (cap \<le> length hm \<and> h < cap \<and> (\<forall>p<cap. hm ! p \<noteq> target \<and> hm ! p \<noteq> INDEXNUL))"
    and body: "(if length hm \<le> h then Some (Inl OutOfBounds)
         else if hm ! h = target then Some (Inr (Some h))
         else if hm ! h = INDEXNUL then Some (Inr None)
         else (case hash_inc cap h of Inl x \<Rightarrow> Some (Inl x) | Inr h' \<Rightarrow> f hm cap target h')) = Some y"
  show "\<not> (cap \<le> length hm \<and> h < cap \<and> (\<forall>p<cap. hm ! p \<noteq> target \<and> hm ! p \<noteq> INDEXNUL))"
  proof
    assume g: "cap \<le> length hm \<and> h < cap \<and> (\<forall>p<cap. hm ! p \<noteq> target \<and> hm ! p \<noteq> INDEXNUL)"
    then have "f hm cap target (wrap64 (h + 2) mod cap) = Some y"
      using body by (simp add: hash_inc_def)
    from IH [OF this] g show False by simp
  qed
qed

lemma erase_after_miss:
  assumes snd: "sound e s" and f: "find_ht e s key restart = Some (Inr (SIZE_MAX, s1))"
  shows "erase_found e s1 = Some (Inr (0, s1))"
proof -
  let ?n = "mysize s" and ?cap = "hashcapacity s" and ?hm = "hashmap s"
  from snd have hc: "?cap = 2 * mycapacity s + 3" and hl: "?cap \<le> length ?hm"
    and small: "?n \<le> max_size"
    and val: "\<forall>p<?cap. ?hm ! p = INDEXNUL \<or> ?hm ! p = INDEXDEL \<or> ?hm ! p < ?n"
    unfolding sound_def linked_def by blast+
  have pos: "?cap \<noteq> 0" using hc by simp
  have big: "\<not> SIZE_MAX < ?n" "SIZE_MAX \<noteq> INDEXNUL" "SIZE_MAX \<noteq> INDEXDEL"
    using small by (simp_all add: nums)
  have tail: "erase_found e (s\<lparr> hashcursor := c' \<rparr>) = Some (Inr (0, s\<lparr> hashcursor := c' \<rparr>))"
    if "find_loop ?hm ?cap (mydata s) key c0 = Some (Inr (c', SIZE_MAX))" for c0 c'
  proof -
    from find_loop_result [OF that] have c': "c' < length ?hm"
      and r: "?hm ! c' = INDEXNUL \<or> (SIZE_MAX = ?hm ! c' \<and> ?hm ! c' \<noteq> INDEXDEL)"
      by auto
    show ?thesis
    proof (cases "c' < ?cap")
      case True
      with val r big have "?hm ! c' = INDEXNUL" by (metis)
      with True c' show ?thesis by (simp add: erase_found_def)
    next
      case False
      then show ?thesis by (simp add: erase_found_def)
    qed
  qed
  show ?thesis
  proof (cases "?n = 0")
    case True
    with f have s1: "s1 = s" by (simp add: find_ht_def)
    show ?thesis
    proof (cases "hashcursor s < ?cap")
      case c: True
      with val True have "?hm ! hashcursor s = INDEXNUL \<or> ?hm ! hashcursor s = INDEXDEL" by auto
      with c hl show ?thesis by (auto simp add: erase_found_def s1)
    next
      case False
      then show ?thesis by (simp add: erase_found_def s1)
    qed
  next
    case n: False
    show ?thesis
    proof (cases restart)
      case True
      with f n pos obtain c' where
        "find_loop ?hm ?cap (mydata s) key (std_hash e key mod ?cap) = Some (Inr (c', SIZE_MAX))"
        "s1 = s\<lparr> hashcursor := c' \<rparr>"
        by (auto simp add: find_ht_def split: option.splits sum.splits)
      with tail show ?thesis by simp
    next
      case r: False
      show ?thesis
      proof (cases "hashcursor s < ?cap")
        case True
        with f n pos r obtain c' where
          "find_loop ?hm ?cap (mydata s) key (wrap64 (hashcursor s + 2) mod ?cap)
             = Some (Inr (c', SIZE_MAX))"
          "s1 = s\<lparr> hashcursor := c' \<rparr>"
          by (auto simp add: find_ht_def hash_inc_def split: option.splits sum.splits)
        with tail show ?thesis by simp
      next
        case False
        with f n r have "s1 = s" by (simp add: find_ht_def)
        with False show ?thesis by (simp add: erase_found_def)
      qed
    qed
  qed
qed

lemma sound_cursor: "sound e (s\<lparr> hashcursor := c \<rparr>) = sound e s"
  by (simp add: sound_def home_slot_def [abs_def] soa_wf_def)

lemma has_empty_cursor: "has_empty (s\<lparr> hashcursor := c \<rparr>) = has_empty s"
  by (simp add: has_empty_def)

lemma worn1_insert: "insert_ht env_nat (worn_at 34) 34 [12] = Some (Inr (True, worn1))"
proof -
  have h: "std_hash env_nat = id" by (simp add: env_nat_def)
  show ?thesis
    by (simp add: insert_ht_def worn_at_def h open_slot_hit nth_append
          push_back_def base_push_back_def with_cols_def col_construct_def worn1_def nums)
qed

lemma worn1_find: "find_ht env_nat worn1 34 True = Some (Inr (0, worn1\<lparr> hashcursor := 34 \<rparr>))"
proof -
  have w: "mysize worn1 = 1" "hashcapacity worn1 = 35" "std_hash env_nat = id"
    by (simp_all add: worn1_def env_nat_def)
  have "find_loop (hashmap worn1) 35 (mydata worn1) 34 34 = Some (Inr (34, 0))"
    using find_loop_hit [of 34 "hashmap worn1" "mydata worn1" 34 35]
    by (simp add: worn1_def at_cols_def nums)
  then show ?thesis
    by (simp add: find_ht_def w)
qed

lemma worn1_erase: "erase_found env_nat (worn1\<lparr> hashcursor := 34 \<rparr>) = None"
proof -
  define t where "t = worn1\<lparr> hashcursor := 34 \<rparr>"
  define hm where "hm = (replicate 34 INDEXDEL @ [INDEXNUL, 0])[34 := INDEXDEL]"
  have tf: "mysize t = 1" "mycapacity t = 16" "hashcapacity t = 35" "hashcursor t = 34"
    "hashmap t = (replicate 34 INDEXDEL @ [INDEXNUL, 0])[34 := 0]"
    "mydata t = [(replicate 16 0)[0 := 34], (replicate 16 0)[0 := 12]]" "std_hash env_nat = id"
    "trivial_key env_nat"
    by (simp_all add: t_def worn1_def env_nat_def)
  have wf: "soa_wf t" by (simp add: soa_wf_def tf)
  have es: "erase_swap t 0 = Inr (t\<lparr> mysize := 0 \<rparr>)"
    using erase_swap_ok [OF wf, of 0] by (simp add: tf)
  have z: "INDEXNUL \<noteq> 0" "INDEXDEL \<noteq> 0" "0 \<noteq> INDEXNUL" "0 \<noteq> INDEXDEL"
    "INDEXDEL \<noteq> INDEXNUL"
    by (simp_all add: nums)
  have d: "hm ! p = INDEXDEL" if "p < 35" for p
    using that by (cases "p = 34") (simp_all add: hm_def nth_append nth_list_update)
  have "locate_slot hm 35 0 34 = None"
  proof (cases "locate_slot hm 35 0 34")
    case (Some y)
    have "length hm = 36" by (simp add: hm_def)
    with locate_slot_never [OF Some] d z show ?thesis by auto
  qed simp
  then have "erase_found env_nat t = None"
    by (simp add: erase_found_def tf es at_key_def at_def at_cols_def z hm_def)
  then show ?thesis by (simp add: t_def)
qed

lemma banana1_insert:
  "insert_ht env_fruit (htable_empty 2) (Str ''banana'') [Num 12] = Some (Inr (True, banana1))"
  "insert_ht env_fruit fruit16 (Str ''banana'') [Num 12] = Some (Inr (True, banana1))"
proof -
  have m: "mysize (htable_empty 2 :: cell htable) = 0" "mycapacity (htable_empty 2 :: cell htable) = 0"
    by (simp_all add: htable_empty_def)
  have h: "std_hash env_fruit (Str ''banana'') = 6" by (simp add: env_fruit_def)
  show b: "insert_ht env_fruit fruit16 (Str ''banana'') [Num 12] = Some (Inr (True, banana1))"
    by (simp add: insert_ht_def fruit16_def h open_slot_hit nth_append push_back_def
          base_push_back_def with_cols_def col_construct_def banana1_def nums)
  have "insert_ht env_fruit (htable_empty 2) (Str ''banana'') [Num 12]
        = insert_ht env_fruit fruit16 (Str ''banana'') [Num 12]"
    by (simp add: insert_ht_def m reserve_fruit nums) (simp add: fruit16_def)
  with b show "insert_ht env_fruit (htable_empty 2) (Str ''banana'') [Num 12]
               = Some (Inr (True, banana1))"
    by simp
qed

lemma banana1_find:
  "find_ht env_fruit banana1 (Str ''banana'') True = Some (Inr (0, banana1\<lparr> hashcursor := 6 \<rparr>))"
proof -
  have w: "mysize banana1 = 1" "hashcapacity banana1 = 35"
    "std_hash env_fruit (Str ''banana'') = 6"
    by (simp_all add: banana1_def env_fruit_def)
  have "find_loop (hashmap banana1) 35 (mydata banana1) (Str ''banana'') 6 = Some (Inr (6, 0))"
    using find_loop_hit [of 6 "hashmap banana1" "mydata banana1" "Str ''banana''" 35]
    by (simp add: banana1_def at_cols_def nums)
  then show ?thesis
    by (simp add: find_ht_def w)
qed

lemma banana1_erase: "erase_found env_fruit (banana1\<lparr> hashcursor := 6 \<rparr>) = Some (Inl Destroyed)"
proof -
  define t where "t = banana1\<lparr> hashcursor := 6 \<rparr>"
  have tf: "mysize t = 1" "mycapacity t = 16" "hashcapacity t = 35" "hashcursor t = 6"
    "length (hashmap t) = 36" "hashmap t ! 6 = 0" "\<not> trivial_key env_fruit"
    "mydata t = [(replicate 16 (Num 0))[0 := Str ''banana''], (replicate 16 (Num 0))[0 := Num 12]]"
    by (simp_all add: t_def banana1_def env_fruit_def)
  have wf: "soa_wf t" by (simp add: soa_wf_def tf)
  have es: "erase_swap t 0 = Inr (t\<lparr> mysize := 0 \<rparr>)"
    using erase_swap_ok [OF wf, of 0] by (simp add: tf)
  have z: "0 \<noteq> INDEXNUL" "0 \<noteq> INDEXDEL"
    by (simp_all add: nums)
  have "erase_found env_fruit t = Some (Inl Destroyed)"
    by (simp add: erase_found_def tf es at_key_def z)
  then show ?thesis by (simp add: t_def)
qed

text \<open>
  C2: \<^verbatim>\<open>erase_found\<close> when the row found is the last row. The claim says that on every
  table that satisfies the slot-reachability invariant \<^verbatim>\<open>erase_found\<close> returns 1, removes
  the row found and leaves the invariant in place, also when the found row is the last one.
  In that case the code does not do so, on two tables that satisfy the invariant.
  In the test program's table with the single row banana 12, \<^verbatim>\<open>find\<close> finds row 0 and
  \<^verbatim>\<open>erase_found\<close> hashes the \<^verbatim>\<open>std::string\<close> key of row 0 after \<^verbatim>\<open>erase_swap\<close> has destructed
  it. In the table of integers with one row and 34 tombstones, reached by inserting and
  erasing the keys \<open>0 .. 33\<close> and inserting the row \<open>(34, 12)\<close>, \<^verbatim>\<open>find\<close> finds row 0 and
  \<^verbatim>\<open>erase_found\<close> never returns: its repair loop looks for a slot that holds the index of
  a relocated row or is empty, and no row was relocated and no slot is empty.
\<close>

theorem erase_found_last_row_fails:
  "insert_ht env_fruit (htable_empty 2) (Str ''banana'') [Num 12] = Some (Inr (True, banana1)) \<and>
   sound env_fruit banana1 \<and> has_empty banana1 \<and>
   find_ht env_fruit banana1 (Str ''banana'') True
     = Some (Inr (0, banana1\<lparr> hashcursor := 6 \<rparr>)) \<and>
   erase_found env_fruit (banana1\<lparr> hashcursor := 6 \<rparr>) = Some (Inl Destroyed) \<and>
   churn_all env_nat table16 (worn_rows 34) = Some (Inr (worn_at 34)) \<and>
   insert_ht env_nat (worn_at 34) 34 [12] = Some (Inr (True, worn1)) \<and>
   sound env_nat worn1 \<and> \<not> has_empty worn1 \<and>
   find_ht env_nat worn1 34 True = Some (Inr (0, worn1\<lparr> hashcursor := 34 \<rparr>)) \<and>
   erase_found env_nat (worn1\<lparr> hashcursor := 34 \<rparr>) = None"
proof -
  have "sound env_nat (worn_at 34)" by (rule worn_sound) simp
  from insert_ht_sound [OF this, of "[12]" 34] worn1_insert
  have snd: "sound env_nat worn1"
    by (auto simp add: worn_at_def max_size_def UINT_MAX_def)
  have "hashcapacity worn1 \<le> length (hashmap worn1)"
    by (simp add: worn1_def)
  then have ne: "\<not> has_empty worn1"
    by (auto simp add: has_empty_iff worn1_def nth_list_update nth_append nums)
  from insert_ht_sound [OF built_sound(1) [OF built_fruit], of "[Num 12]" "Str ''banana''"]
    banana1_insert(2)
  have sb: "sound env_fruit banana1"
    by (auto simp add: fruit16_def max_size_def UINT_MAX_def)
  have "hashmap banana1 ! 0 = INDEXNUL" "hashcapacity banana1 \<le> length (hashmap banana1)"
    "0 < hashcapacity banana1"
    by (simp_all add: banana1_def nth_append)
  then have hb: "has_empty banana1"
    using has_empty_iff [of banana1] by blast
  from snd ne sb hb banana1_insert(1) banana1_find banana1_erase churn_worn [of 34]
    worn1_insert worn1_find worn1_erase
  show ?thesis by simp
qed

end
